theory Spec2Isabelle
  imports Main
begin

section \<open>The data model of volk\_gen\<close>

text \<open>
  The structs of \<^verbatim>\<open>volk_gen.cpp\<close>. A map with string keys is an association
  list read by a first-match lookup; a set of strings is the list of its elements in
  iteration order; a pointer into one of the read-only catalogs is the value it points to.
  The fields carry the struct's name as a prefix, since all four structs have a field
  called \<^verbatim>\<open>name\<close>.
\<close>

record Arch =
  arch_name :: string
  arch_environment :: string
  arch_include :: string
  arch_alignment :: int
  arch_checks :: "(string \<times> string list) list"
  arch_flags :: "(string \<times> string list) list"

record Machine =
  machine_name :: string
  machine_arch_names :: "string list"
  machine_archs :: "Arch list"
  machine_alignment :: int

record Impl =
  impl_name :: string
  impl_deps :: "string list"
  impl_args :: "(string \<times> string) list"
  impl_is_aligned :: bool

record Kernel =
  kern_name :: string
  kern_pname :: string
  kern_impls :: "Impl list"
  kern_args :: "(string \<times> string) list"
  kern_arglist_types :: string
  kern_arglist_full :: string
  kern_arglist_names :: string
  kern_has_dispatcher :: bool

subsection \<open>Arch::is\_supported and Arch::get\_flags\<close>

text \<open>\<^verbatim>\<open>std::map::find\<close>: the entry stored under a key, if there is one.\<close>

fun map_find :: "('k \<times> 'v) list \<Rightarrow> 'k \<Rightarrow> 'v option" where
  "map_find [] k = None"
| "map_find ((k', v) # kvs) k = (if k' = k then Some v else map_find kvs k)"

definition is_supported :: "Arch \<Rightarrow> string \<Rightarrow> bool" where
  "is_supported A compiler =
     (if arch_flags A = [] then True else map_find (arch_flags A) compiler \<noteq> None)"

definition get_flags :: "Arch \<Rightarrow> string \<Rightarrow> string list" where
  "get_flags A compiler =
     (case map_find (arch_flags A) compiler of Some fs \<Rightarrow> fs | None \<Rightarrow> [])"

subsection \<open>Kernel::get\_impls\<close>

text \<open>The inner loop over \<^verbatim>\<open>impl.deps\<close>, which stops at the first missing dependency.\<close>

fun all_deps_satisfied :: "string list \<Rightarrow> string set \<Rightarrow> bool" where
  "all_deps_satisfied [] arch_set = True"
| "all_deps_satisfied (dep # deps) arch_set =
     (if dep \<notin> arch_set then False else all_deps_satisfied deps arch_set)"

text \<open>The outer loop over \<^verbatim>\<open>impls\<close>, pushing onto \<^verbatim>\<open>result\<close>.\<close>

fun get_impls_loop :: "Impl list \<Rightarrow> string set \<Rightarrow> Impl list \<Rightarrow> Impl list" where
  "get_impls_loop [] arch_set result = result"
| "get_impls_loop (impl # impls) arch_set result =
     get_impls_loop impls arch_set
       (if all_deps_satisfied (impl_deps impl) arch_set then result @ [impl] else result)"

definition get_impls :: "Kernel \<Rightarrow> string set \<Rightarrow> Impl list" where
  "get_impls K arch_set = get_impls_loop (kern_impls K) arch_set []"

subsection \<open>String utilities\<close>

text \<open>
  \<^verbatim>\<open>split(s, delim)\<close>: the loop looks for the next delimiter from \<^verbatim>\<open>start\<close>
  and pushes the text in between; \<^verbatim>\<open>cur\<close> is the text from \<^verbatim>\<open>start\<close> to the
  position reached. The text after the last delimiter is pushed at the end, so the result
  is never empty.
\<close>

fun split_loop :: "string \<Rightarrow> char \<Rightarrow> string \<Rightarrow> string list" where
  "split_loop [] delim cur = [cur]"
| "split_loop (c # cs) delim cur =
     (if c = delim then cur # split_loop cs delim [] else split_loop cs delim (cur @ [c]))"

definition split :: "string \<Rightarrow> char \<Rightarrow> string list" where
  "split s delim = split_loop s delim []"

subsection \<open>register\_machine\<close>

text \<open>
  The first loop of \<^verbatim>\<open>register_machine\<close> looks for the first entry that contains
  \<^verbatim>\<open>'|'\<close>: \<^verbatim>\<open>first_bar\<close> returns the entries before it, the entry and the
  entries after it.
\<close>

fun first_bar :: "string list \<Rightarrow> (string list \<times> string \<times> string list) option" where
  "first_bar [] = None"
| "first_bar (a # as) =
     (if CHR ''|'' \<in> set a then Some ([], a, as)
      else (case first_bar as of
              None \<Rightarrow> None
            | Some (pre, e, post) \<Rightarrow> Some (a # pre, e, post)))"

text \<open>
  The loop that resolves the names of a list without alternatives: an empty name is
  skipped, a known name is pushed with its architecture, an unknown name ends the
  function (\<^verbatim>\<open>None\<close>).
\<close>

fun resolve_archs ::
  "(string \<times> Arch) list \<Rightarrow> string list \<Rightarrow> string list \<times> Arch list \<Rightarrow>
   (string list \<times> Arch list) option" where
  "resolve_archs dict [] acc = Some acc"
| "resolve_archs dict (a # rest) (names, archs) =
     (if a = [] then resolve_archs dict rest (names, archs)
      else (case map_find dict a of
              Some A \<Rightarrow> resolve_archs dict rest (names @ [a], archs @ [A])
            | None \<Rightarrow> None))"

text \<open>The loop over \<^verbatim>\<open>machine.archs\<close> that computes \<^verbatim>\<open>max_align\<close>, started at 1.\<close>

fun max_align_loop :: "Arch list \<Rightarrow> int \<Rightarrow> int" where
  "max_align_loop [] max_align = max_align"
| "max_align_loop (arch # archs) max_align =
     max_align_loop archs (max max_align (arch_alignment arch))"

definition bars :: "string list \<Rightarrow> nat" where
  "bars archs = length (filter (\<lambda>c. c = CHR ''|'') (concat archs))"

lemma split_loop_no_delim:
  "part \<in> set (split_loop s delim cur) \<Longrightarrow> delim \<notin> set cur \<Longrightarrow> delim \<notin> set part"
  by (induction s delim cur rule: split_loop.induct) (auto split: if_splits)

lemma first_bar_Some:
  "first_bar archs = Some (pre, e, post) \<Longrightarrow>
     archs = pre @ e # post \<and> CHR ''|'' \<in> set e \<and> bars pre = 0"
proof (induction archs arbitrary: pre)
  case Nil
  then show ?case by simp
next
  case (Cons a as)
  show ?case
  proof (cases "CHR ''|'' \<in> set a")
    case True
    with Cons.prems show ?thesis by (simp add: bars_def)
  next
    case False
    with Cons.prems obtain pre' where p: "first_bar as = Some (pre', e, post)" "pre = a # pre'"
      by (auto split: option.splits)
    from Cons.IH [OF p(1)] False p(2) show ?thesis
      by (auto simp: bars_def filter_empty_conv)
  qed
qed

lemma bars_append: "bars (xs @ ys) = bars xs + bars ys"
  by (simp add: bars_def)

lemma bars_single: "bars [a] = length (filter (\<lambda>c. c = CHR ''|'') a)"
  by (simp add: bars_def)

lemma bars_Cons: "bars (a # as) = bars [a] + bars as"
  by (simp add: bars_def)

lemma bars_pos: "CHR ''|'' \<in> set e \<Longrightarrow> 0 < bars [e]"
  by (simp add: bars_single filter_empty_conv)

lemma bars_zero: "CHR ''|'' \<notin> set part \<Longrightarrow> bars [part] = 0"
  by (auto simp: bars_single filter_empty_conv)

lemma register_machine_decreases:
  assumes fb: "first_bar archs = Some (pre, e, post)"
    and part: "part \<in> set (split e (CHR ''|''))"
  shows "bars (pre @ part # post) < bars archs" and "bars (pre @ post) < bars archs"
proof -
  from first_bar_Some [OF fb] have a: "archs = pre @ e # post" and b: "CHR ''|'' \<in> set e"
    by simp_all
  from part have "CHR ''|'' \<notin> set part"
    unfolding split_def by (rule split_loop_no_delim) simp
  then have z: "bars [part] = 0" by (rule bars_zero)
  from b have pos: "0 < bars [e]" by (rule bars_pos)
  have full: "bars archs = bars pre + bars [e] + bars post"
    unfolding a by (simp add: bars_append bars_Cons [of e post])
  have "bars (pre @ part # post) = bars pre + bars post"
    using z by (simp add: bars_append bars_Cons [of part post])
  with full pos show "bars (pre @ part # post) < bars archs" by simp
  from full pos show "bars (pre @ post) < bars archs" by (simp add: bars_append)
qed

text \<open>
  \<^verbatim>\<open>register_machine\<close>, with the global \<^verbatim>\<open>g_machines\<close> passed in and returned and
  \<^verbatim>\<open>g_arch_dict\<close> as a parameter. With an alternative entry, every part of it is
  registered in turn and the function returns; without one, the machine is validated
  and pushed. Each recursive call has fewer \<^verbatim>\<open>'|'\<close> characters in its list.
\<close>

function register_machine ::
  "(string \<times> Arch) list \<Rightarrow> string \<Rightarrow> string list \<Rightarrow> Machine list \<Rightarrow> Machine list" where
  "register_machine dict name archs g_machines =
     (case first_bar archs of
        Some (pre, e, post) \<Rightarrow>
          fold (\<lambda>part ms.
                  if part \<noteq> [] then register_machine dict (name @ ''_'' @ part) (pre @ [part] @ post) ms
                  else register_machine dict name (pre @ post) ms)
               (split e (CHR ''|'')) g_machines
      | None \<Rightarrow>
          (case resolve_archs dict archs ([], []) of
             None \<Rightarrow> g_machines
           | Some (names, resolved) \<Rightarrow>
               if resolved = [] then g_machines
               else g_machines @
                 [\<lparr> machine_name = name, machine_arch_names = names, machine_archs = resolved,
                    machine_alignment = max_align_loop resolved 1 \<rparr>]))"
  by pat_completeness auto
termination
  by (relation "measure (\<lambda>(dict, name, archs, g_machines). bars archs)")
     (auto dest: register_machine_decreases)

declare register_machine.simps [simp del]

text \<open>
  The loop of \<^verbatim>\<open>parse_machines\<close> over the machine elements of the description, each
  given by its name attribute and the whitespace-separated tokens of its
  \<^verbatim>\<open>archs\<close> child; \<^verbatim>\<open>g_machines\<close> is empty before.
\<close>

definition parse_machines :: "(string \<times> Arch) list \<Rightarrow> (string \<times> string list) list \<Rightarrow> Machine list" where
  "parse_machines dict elems =
     fold (\<lambda>(name, archs) ms. if name = [] then ms else register_machine dict name archs ms)
          elems []"

subsection \<open>remove\_comments\<close>

text \<open>
  The scanner of \<^verbatim>\<open>remove_comments\<close>. Its flags \<^verbatim>\<open>in_line_comment\<close>,
  \<^verbatim>\<open>in_block_comment\<close> and \<^verbatim>\<open>in_string\<close> (with \<^verbatim>\<open>string_char\<close>) are never
  set together, so they are one mode. The loop index advances by two where the source
  has \<^verbatim>\<open>++i\<close> in the body; the tests \<^verbatim>\<open>i + 1 < code.size()\<close> are the patterns
  with a second character. \<^verbatim>\<open>CHR 0x0A\<close> is the newline, \<^verbatim>\<open>CHR 0x5C\<close> the backslash,
  \<^verbatim>\<open>CHR 0x22\<close> and \<^verbatim>\<open>CHR 0x27\<close> the double and the single quote.
\<close>

datatype scan_mode = Code | LineComment | BlockComment | InString char

fun scan :: "scan_mode \<Rightarrow> string \<Rightarrow> string" where
  "scan mode [] = []"
| "scan LineComment (c # cs) =
     (if c = CHR 0x0A then c # scan Code cs else scan LineComment cs)"
| "scan BlockComment [c] = []"
| "scan BlockComment (c # d # ds) =
     (if c = CHR ''*'' \<and> d = CHR ''/'' then scan Code ds else scan BlockComment (d # ds))"
| "scan (InString string_char) [c] = [c]"
| "scan (InString string_char) (c # d # ds) =
     (if c = CHR 0x5C then c # d # scan (InString string_char) ds
      else if c = string_char then c # scan Code (d # ds)
      else c # scan (InString string_char) (d # ds))"
| "scan Code [c] = [c]"
| "scan Code (c # d # ds) =
     (if c = CHR 0x22 \<or> c = CHR 0x27 then c # scan (InString c) (d # ds)
      else if c = CHR ''/'' \<and> d = CHR ''/'' then scan LineComment ds
      else if c = CHR ''/'' \<and> d = CHR ''*'' then scan BlockComment ds
      else c # scan Code (d # ds))"

definition remove_comments :: "string \<Rightarrow> string" where
  "remove_comments code = scan Code code"

text \<open>The mode the scanner is in after it has read a text, by the same case analysis.\<close>

fun mode_after :: "scan_mode \<Rightarrow> string \<Rightarrow> scan_mode" where
  "mode_after mode [] = mode"
| "mode_after LineComment (c # cs) =
     (if c = CHR 0x0A then mode_after Code cs else mode_after LineComment cs)"
| "mode_after BlockComment [c] = BlockComment"
| "mode_after BlockComment (c # d # ds) =
     (if c = CHR ''*'' \<and> d = CHR ''/'' then mode_after Code ds
      else mode_after BlockComment (d # ds))"
| "mode_after (InString string_char) [c] =
     (if c = CHR 0x5C then InString string_char
      else if c = string_char then Code else InString string_char)"
| "mode_after (InString string_char) (c # d # ds) =
     (if c = CHR 0x5C then mode_after (InString string_char) ds
      else if c = string_char then mode_after Code (d # ds)
      else mode_after (InString string_char) (d # ds))"
| "mode_after Code [c] = (if c = CHR 0x22 \<or> c = CHR 0x27 then InString c else Code)"
| "mode_after Code (c # d # ds) =
     (if c = CHR 0x22 \<or> c = CHR 0x27 then mode_after (InString c) (d # ds)
      else if c = CHR ''/'' \<and> d = CHR ''/'' then mode_after LineComment ds
      else if c = CHR ''/'' \<and> d = CHR ''*'' then mode_after BlockComment ds
      else mode_after Code (d # ds))"

text \<open>
  The contents of a literal delimited by \<^verbatim>\<open>q\<close>: characters other than the
  delimiter and the backslash, and escapes (a backslash and any next character).
\<close>

fun literal_body :: "char \<Rightarrow> string \<Rightarrow> bool" where
  "literal_body q [] = True"
| "literal_body q [c] = (c \<noteq> CHR 0x5C \<and> c \<noteq> q)"
| "literal_body q (c # d # ds) =
     (if c = CHR 0x5C then literal_body q ds else c \<noteq> q \<and> literal_body q (d # ds))"

text \<open>A comment text in which no \<^verbatim>\<open>*/\<close> occurs.\<close>

fun no_block_end :: "string \<Rightarrow> bool" where
  "no_block_end (c # d # ds) = (\<not> (c = CHR ''*'' \<and> d = CHR ''/'') \<and> no_block_end (d # ds))"
| "no_block_end cs = True"

subsection \<open>parse\_kernels\<close>

text \<open>
  \<^verbatim>\<open>join\<close> puts the delimiter between the elements.
\<close>

fun join :: "string list \<Rightarrow> string \<Rightarrow> string" where
  "join [] delim = []"
| "join [x] delim = x"
| "join (x # y # ys) delim = x @ delim @ join (y # ys) delim"

text \<open>\<^verbatim>\<open>std::regex_replace(name, std::regex("^volk_"), "p_")\<close>.\<close>

definition pname_of :: "string \<Rightarrow> string" where
  "pname_of name = (if take 5 name = ''volk_'' then ''p_'' @ drop 5 name else name)"

text \<open>The loop that looks for an implementation named \<^verbatim>\<open>generic\<close>.\<close>

fun has_generic :: "Impl list \<Rightarrow> bool" where
  "has_generic [] = False"
| "has_generic (impl # impls) =
     (if impl_name impl = ''generic'' then True else has_generic impls)"

text \<open>
  The loop that erases the first implementation named \<^verbatim>\<open>dispatcher\<close>; the flag
  tells whether there was one.
\<close>

fun erase_dispatcher :: "Impl list \<Rightarrow> bool \<times> Impl list" where
  "erase_dispatcher [] = (False, [])"
| "erase_dispatcher (impl # impls) =
     (if impl_name impl = ''dispatcher'' then (True, impls)
      else (case erase_dispatcher impls of (found, rest) \<Rightarrow> (found, impl # rest)))"

text \<open>
  One round of the loop of \<^verbatim>\<open>parse_kernels\<close> over the sorted header files. A header
  is given by its stem and by the implementations \<^verbatim>\<open>parse_impl\<close> returned for its
  guarded subsections, in source order (reading the file, stripping comments,
  sectioning and the regular expressions of \<^verbatim>\<open>parse_impl\<close> are not modelled). The
  state is \<^verbatim>\<open>g_kernels\<close> and the lines written to \<^verbatim>\<open>std::cerr\<close>.
\<close>

definition parse_kernel_file ::
  "string \<times> Impl list \<Rightarrow> Kernel list \<times> string list \<Rightarrow> Kernel list \<times> string list" where
  "parse_kernel_file hdr st =
     (case hdr of (name, parsed) \<Rightarrow>
      case st of (g_kernels, cerr) \<Rightarrow>
        let impls = filter (\<lambda>impl. impl_name impl \<noteq> []) parsed in
        if impls = [] then (g_kernels, cerr)
        else if \<not> has_generic impls then
          (g_kernels,
           cerr @ [''Warning: '' @ name @ '' does not have a generic protokernel, skipping.''])
        else
          (case erase_dispatcher impls of (found, impls') \<Rightarrow>
             let args = (if impls' \<noteq> [] \<and> impl_args (hd impls') \<noteq> []
                         then impl_args (hd impls') else [])
             in (g_kernels @
                  [\<lparr> kern_name = name, kern_pname = pname_of name, kern_impls = impls',
                      kern_args = args,
                      kern_arglist_types = join (map fst args) '', '',
                      kern_arglist_full = join (map (\<lambda>(t, n). t @ '' '' @ n) args) '', '',
                      kern_arglist_names = join (map snd args) '', '',
                      kern_has_dispatcher = found \<rparr>],
                 cerr)))"

definition parse_kernels :: "(string \<times> Impl list) list \<Rightarrow> Kernel list \<times> string list" where
  "parse_kernels files = fold parse_kernel_file files ([], [])"

section \<open>The template engine\<close>

subsection \<open>Characters and strings\<close>

text \<open>
  The character classes of the regular expressions (\<^verbatim>\<open>\s\<close>, \<^verbatim>\<open>\d\<close>, \<^verbatim>\<open>\w\<close>,
  \<^verbatim>\<open>[\w.]\<close> and the dot, which matches all but the line terminators) in the C
  locale, and the characters \<^verbatim>\<open>trim\<close> removes.
\<close>

definition is_space :: "char \<Rightarrow> bool" where
  "is_space c \<longleftrightarrow> c \<in> {CHR '' '', CHR 0x09, CHR 0x0A, CHR 0x0B, CHR 0x0C, CHR 0x0D}"

definition is_digit :: "char \<Rightarrow> bool" where
  "is_digit c \<longleftrightarrow> 48 \<le> (of_char c :: nat) \<and> (of_char c :: nat) \<le> 57"

definition is_word :: "char \<Rightarrow> bool" where
  "is_word c \<longleftrightarrow>
     is_digit c \<or> (65 \<le> (of_char c :: nat) \<and> (of_char c :: nat) \<le> 90) \<or>
     (97 \<le> (of_char c :: nat) \<and> (of_char c :: nat) \<le> 122) \<or> c = CHR ''_''"

definition is_path :: "char \<Rightarrow> bool" where
  "is_path c \<longleftrightarrow> is_word c \<or> c = CHR ''.''"

definition is_dot :: "char \<Rightarrow> bool" where
  "is_dot c \<longleftrightarrow> c \<noteq> CHR 0x0A \<and> c \<noteq> CHR 0x0D"

definition is_trim :: "char \<Rightarrow> bool" where
  "is_trim c \<longleftrightarrow> c \<in> {CHR '' '', CHR 0x09, CHR 0x0D, CHR 0x0A}"

definition trim :: "string \<Rightarrow> string" where
  "trim s = rev (dropWhile is_trim (rev (dropWhile is_trim s)))"

definition to_upper_char :: "char \<Rightarrow> char" where
  "to_upper_char c =
     (if 97 \<le> (of_char c :: nat) \<and> (of_char c :: nat) \<le> 122
      then (case c of Char b0 b1 b2 b3 b4 b5 b6 b7 \<Rightarrow> Char b0 b1 b2 b3 b4 False b6 b7)
      else c)"

definition to_upper :: "string \<Rightarrow> string" where
  "to_upper s = map to_upper_char s"

definition digit_char :: "nat \<Rightarrow> char" where
  "digit_char n = ''0123456789'' ! n"

function string_of_nat :: "nat \<Rightarrow> string" where
  "string_of_nat n =
     (if n < 10 then [digit_char n] else string_of_nat (n div 10) @ [digit_char (n mod 10)])"
  by pat_completeness auto
termination
  by (relation "measure (\<lambda>n. n)") auto

declare string_of_nat.simps [simp del]

definition to_string :: "int \<Rightarrow> string" where
  "to_string i = (if i < 0 then CHR ''-'' # string_of_nat (nat (- i)) else string_of_nat (nat i))"

text \<open>The rest of a string after a prefix, if it starts with it.\<close>

fun strip_prefix :: "string \<Rightarrow> string \<Rightarrow> string option" where
  "strip_prefix [] s = Some s"
| "strip_prefix (p # ps) [] = None"
| "strip_prefix (p # ps) (c # cs) = (if p = c then strip_prefix ps cs else None)"

text \<open>\<^verbatim>\<open>std::string::find\<close>: the text before and after the first occurrence.\<close>

fun find_sub :: "string \<Rightarrow> string \<Rightarrow> (string \<times> string) option" where
  "find_sub pat [] = (if pat = [] then Some ([], []) else None)"
| "find_sub pat (c # cs) =
     (case strip_prefix pat (c # cs) of
        Some rest \<Rightarrow> Some ([], rest)
      | None \<Rightarrow> (case find_sub pat cs of None \<Rightarrow> None | Some (b, a) \<Rightarrow> Some (c # b, a)))"

text \<open>
  The lines \<^verbatim>\<open>std::getline\<close> reads from the template: the text is cut at every
  newline, and a last line without a newline is read too unless it is empty.
\<close>

fun getlines_loop :: "string \<Rightarrow> string \<Rightarrow> string list" where
  "getlines_loop [] cur = (if cur = [] then [] else [cur])"
| "getlines_loop (c # cs) cur =
     (if c = CHR 0x0A then cur # getlines_loop cs [] else getlines_loop cs (cur @ [c]))"

definition getlines :: "string \<Rightarrow> string list" where
  "getlines s = getlines_loop s []"

subsection \<open>The regular expressions of the directives\<close>

text \<open>
  Each regular expression of \<^verbatim>\<open>render\<close> is matched against the whole line
  (\<^verbatim>\<open>std::regex_match\<close>). Its pieces are read from left to right: a greedy class
  is followed by a character outside the class in all of them, so the longest run is
  the only one that can match.
\<close>

definition skip_spaces :: "string \<Rightarrow> string" where
  "skip_spaces s = dropWhile is_space s"

definition spaces1 :: "string \<Rightarrow> string option" where
  "spaces1 s = (if takeWhile is_space s = [] then None else Some (dropWhile is_space s))"

definition span1 :: "(char \<Rightarrow> bool) \<Rightarrow> string \<Rightarrow> (string \<times> string) option" where
  "span1 P s = (if takeWhile P s = [] then None else Some (takeWhile P s, dropWhile P s))"

text \<open>\<^verbatim>\<open>^\s*%\s*KEYWORD\<close>: the rest of the line after the keyword.\<close>

definition directive :: "string \<Rightarrow> string \<Rightarrow> string option" where
  "directive keyword line =
     (case strip_prefix ''%'' (skip_spaces line) of
        None \<Rightarrow> None
      | Some s \<Rightarrow> strip_prefix keyword (skip_spaces s))"

text \<open>\<^verbatim>\<open>\s+(\w+)\<close>, \<^verbatim>\<open>\s+in\s+\<close> and the final \<^verbatim>\<open>\s*:\<close> of the loop patterns.\<close>

definition spaced_word :: "string \<Rightarrow> (string \<times> string) option" where
  "spaced_word s = (case spaces1 s of None \<Rightarrow> None | Some s1 \<Rightarrow> span1 is_word s1)"

definition spaced_in :: "string \<Rightarrow> string option" where
  "spaced_in s =
     (case spaces1 s of
        None \<Rightarrow> None
      | Some s1 \<Rightarrow> (case strip_prefix ''in'' s1 of None \<Rightarrow> None | Some s2 \<Rightarrow> spaces1 s2))"

definition ends_colon :: "string \<Rightarrow> bool" where
  "ends_colon s \<longleftrightarrow> skip_spaces s = '':''"

text \<open>\<^verbatim>\<open>for_re\<close>: \<^verbatim>\<open>^\s*%\s*for\s+(\w+)\s+in\s+([\w.]+)\s*:\<close>.\<close>

definition for_re :: "string \<Rightarrow> (string \<times> string) option" where
  "for_re line =
     (case directive ''for'' line of None \<Rightarrow> None | Some s \<Rightarrow>
      case spaced_word s of None \<Rightarrow> None | Some (v, s1) \<Rightarrow>
      case spaced_in s1 of None \<Rightarrow> None | Some s2 \<Rightarrow>
      case span1 is_path s2 of None \<Rightarrow> None | Some (coll, s3) \<Rightarrow>
      if ends_colon s3 then Some (v, coll) else None)"

text \<open>\<^verbatim>\<open>\s*,\s*(\w+)\<close> after the first variable of the two-variable patterns.\<close>

definition comma_word :: "string \<Rightarrow> (string \<times> string) option" where
  "comma_word s =
     (case strip_prefix '','' (skip_spaces s) of
        None \<Rightarrow> None
      | Some s1 \<Rightarrow> span1 is_word (skip_spaces s1))"

text \<open>
  \<^verbatim>\<open>for_enum_re\<close>:
  \<^verbatim>\<open>^\s*%\s*for\s+(\w+)\s*,\s*(\w+)\s+in\s+enumerate\((\w+)\)\s*:\<close>.
\<close>

definition for_enum_re :: "string \<Rightarrow> (string \<times> string \<times> string) option" where
  "for_enum_re line =
     (case directive ''for'' line of None \<Rightarrow> None | Some s \<Rightarrow>
      case spaced_word s of None \<Rightarrow> None | Some (v1, s1) \<Rightarrow>
      case comma_word s1 of None \<Rightarrow> None | Some (v2, s2) \<Rightarrow>
      case spaced_in s2 of None \<Rightarrow> None | Some s3 \<Rightarrow>
      case strip_prefix ''enumerate('' s3 of None \<Rightarrow> None | Some s4 \<Rightarrow>
      case span1 is_word s4 of None \<Rightarrow> None | Some (coll, s5) \<Rightarrow>
      case strip_prefix '')'' s5 of None \<Rightarrow> None | Some s6 \<Rightarrow>
      if ends_colon s6 then Some (v1, v2, coll) else None)"

text \<open>\<^verbatim>\<open>for_tuple_re\<close>: \<^verbatim>\<open>^\s*%\s*for\s+(\w+)\s*,\s*(\w+)\s+in\s+([\w.]+)\s*:\<close>.\<close>

definition for_tuple_re :: "string \<Rightarrow> (string \<times> string \<times> string) option" where
  "for_tuple_re line =
     (case directive ''for'' line of None \<Rightarrow> None | Some s \<Rightarrow>
      case spaced_word s of None \<Rightarrow> None | Some (v1, s1) \<Rightarrow>
      case comma_word s1 of None \<Rightarrow> None | Some (v2, s2) \<Rightarrow>
      case spaced_in s2 of None \<Rightarrow> None | Some s3 \<Rightarrow>
      case span1 is_path s3 of None \<Rightarrow> None | Some (coll, s4) \<Rightarrow>
      if ends_colon s4 then Some (v1, v2, coll) else None)"

text \<open>\<^verbatim>\<open>endfor_re\<close>, \<^verbatim>\<open>endif_re\<close> and \<^verbatim>\<open>else_re\<close>.\<close>

definition endfor_re :: "string \<Rightarrow> bool" where
  "endfor_re line \<longleftrightarrow> directive ''endfor'' line = Some []"

definition endif_re :: "string \<Rightarrow> bool" where
  "endif_re line \<longleftrightarrow> directive ''endif'' line = Some []"

definition else_re :: "string \<Rightarrow> bool" where
  "else_re line \<longleftrightarrow> (case directive ''else'' line of None \<Rightarrow> False | Some s \<Rightarrow> ends_colon s)"

text \<open>
  The tail \<^verbatim>\<open>\s+(.+?)\s*:\<close> of \<^verbatim>\<open>if_re\<close> and \<^verbatim>\<open>elif_re\<close>, up to the end of
  the line. The line ends with the colon; before it, the leading spaces are skipped
  and the condition is the text up to the last character that is not a space, which
  the dot must match throughout. When only spaces stand before the colon, the
  expression gives one of them back to the condition: the last one the dot matches,
  the first space excepted.
\<close>

definition condition_tail :: "string \<Rightarrow> string option" where
  "condition_tail r =
     (if r = [] \<or> last r \<noteq> CHR '':'' then None
      else let q = butlast r in
        if takeWhile is_space q = [] then None
        else let rest = dropWhile is_space q in
          if rest \<noteq> [] then
            (let x = rev (dropWhile is_space (rev rest))
             in if list_all is_dot x then Some x else None)
          else (case filter is_dot (tl q) of [] \<Rightarrow> None | d # ds \<Rightarrow> Some [last (d # ds)]))"

definition if_re :: "string \<Rightarrow> string option" where
  "if_re line = (case directive ''if'' line of None \<Rightarrow> None | Some r \<Rightarrow> condition_tail r)"

definition elif_re :: "string \<Rightarrow> string option" where
  "elif_re line = (case directive ''elif'' line of None \<Rightarrow> None | Some r \<Rightarrow> condition_tail r)"

text \<open>
  \<^verbatim>\<open>code_block_re\<close>, searched in the line: the leftmost \<^verbatim>\<open><%\<close> that is followed
  by a \<^verbatim>\<open>%>\<close> with no line terminator in between, and the nearest such \<^verbatim>\<open>%>\<close>.
  The result is the prefix, the code and the suffix of the match.
\<close>

fun lazy_code :: "string \<Rightarrow> (string \<times> string) option" where
  "lazy_code [] = None"
| "lazy_code (c # cs) =
     (case strip_prefix ''%>'' (c # cs) of
        Some rest \<Rightarrow> Some ([], rest)
      | None \<Rightarrow>
          if is_dot c
          then (case lazy_code cs of None \<Rightarrow> None | Some (code, rest) \<Rightarrow> Some (c # code, rest))
          else None)"

definition code_block_here :: "string \<Rightarrow> (string \<times> string) option" where
  "code_block_here s = (case strip_prefix ''<%'' s of None \<Rightarrow> None | Some r \<Rightarrow> lazy_code r)"

fun code_block_re :: "string \<Rightarrow> (string \<times> string \<times> string) option" where
  "code_block_re [] = None"
| "code_block_re (c # cs) =
     (case code_block_here (c # cs) of
        Some (code, suffix) \<Rightarrow> Some ([], code, suffix)
      | None \<Rightarrow>
          (case code_block_re cs of
             None \<Rightarrow> None
           | Some (prefix, code, suffix) \<Rightarrow> Some (c # prefix, code, suffix)))"

text \<open>
  \<^verbatim>\<open>var_re\<close>, \<^verbatim>\<open>\$\{([^}]+)\}\<close>, searched in the line: the leftmost \<^verbatim>\<open>${\<close> that
  is followed by at least one character other than the closing brace and then by it.
\<close>

definition var_here :: "string \<Rightarrow> (string \<times> string) option" where
  "var_here s =
     (case strip_prefix ''${'' s of
        None \<Rightarrow> None
      | Some r \<Rightarrow>
          if takeWhile (\<lambda>c. c \<noteq> CHR ''}'') r = [] \<or> dropWhile (\<lambda>c. c \<noteq> CHR ''}'') r = []
          then None
          else Some (takeWhile (\<lambda>c. c \<noteq> CHR ''}'') r, tl (dropWhile (\<lambda>c. c \<noteq> CHR ''}'') r)))"

fun var_re :: "string \<Rightarrow> (string \<times> string \<times> string) option" where
  "var_re [] = None"
| "var_re (c # cs) =
     (case var_here (c # cs) of
        Some (expr, suffix) \<Rightarrow> Some ([], expr, suffix)
      | None \<Rightarrow>
          (case var_re cs of
             None \<Rightarrow> None
           | Some (prefix, expr, suffix) \<Rightarrow> Some (c # prefix, expr, suffix)))"

text \<open>
  The patterns of \<^verbatim>\<open>execute_code_block\<close> are literal pieces with \<^verbatim>\<open>\s*\<close> between
  them, searched anywhere in the code (\<^verbatim>\<open>std::regex_search\<close>).
\<close>

fun match_pieces :: "string list \<Rightarrow> string \<Rightarrow> bool" where
  "match_pieces [] s = True"
| "match_pieces (p # ps) s =
     (case strip_prefix p s of None \<Rightarrow> False | Some r \<Rightarrow> match_pieces ps (skip_spaces r))"

fun search_pieces :: "string list \<Rightarrow> string \<Rightarrow> bool" where
  "search_pieces ps [] = match_pieces ps []"
| "search_pieces ps (c # cs) = (match_pieces ps (c # cs) \<or> search_pieces ps cs)"

subsection \<open>The engine and its expressions\<close>

text \<open>
  The three catalogs the engine reads. \<^verbatim>\<open>g_machine_dict\<close> is filled from
  \<^verbatim>\<open>g_machines\<close> in order, a later machine replacing an earlier one of the same name.
\<close>

record Catalog =
  g_kernels :: "Kernel list"
  g_archs :: "Arch list"
  g_machines :: "Machine list"

definition g_machine_dict :: "Catalog \<Rightarrow> (string \<times> Machine) list" where
  "g_machine_dict cat = rev (map (\<lambda>m. (machine_name m, m)) (g_machines cat))"

text \<open>
  The fields of \<^verbatim>\<open>TemplateEngine\<close>, except \<^verbatim>\<open>render_depth_\<close>: it is set when an
  engine is made and never assigned afterwards, so it is an argument of \<^verbatim>\<open>render\<close>.
  \<^verbatim>\<open>num_open_parens_\<close> is only reset to zero and incremented.
\<close>

record TemplateEngine =
  vars :: "(string \<times> string) list"
  current_kernel :: "Kernel option"
  current_arch :: "Arch option"
  current_machine :: "Machine option"
  current_impl :: "Impl option"
  current_arg_index :: int
  current_check_index :: int
  current_enum_index :: int
  num_open_parens :: nat
  end_open_parens :: string
  current_impls :: "Impl list"
  len_archs :: nat

text \<open>A default-constructed engine.\<close>

definition new_engine :: TemplateEngine where
  "new_engine = \<lparr> vars = [], current_kernel = None, current_arch = None,
     current_machine = None, current_impl = None, current_arg_index = - 1,
     current_check_index = - 1, current_enum_index = - 1, num_open_parens = 0,
     end_open_parens = [], current_impls = [], len_archs = 0 \<rparr>"

definition max_render_depth :: nat where
  "max_render_depth = 20"

definition banner :: string where
  "banner = [CHR 0x0A] @ ''/* this file was generated by volk template utils, do not edit! */'' @
            [CHR 0x0A, CHR 0x0A]"

text \<open>The blocks of \<^verbatim>\<open>evaluate_expression\<close>, one per selection, in its order.\<close>

definition kernel_field :: "Kernel \<Rightarrow> string \<Rightarrow> string option" where
  "kernel_field K e =
     (if e = ''kern.name'' then Some (kern_name K)
      else if e = ''kern.pname'' then Some (kern_pname K)
      else if e = ''kern.arglist_full'' then Some (kern_arglist_full K)
      else if e = ''kern.arglist_names'' then Some (kern_arglist_names K)
      else if e = ''kern.arglist_types'' then Some (kern_arglist_types K)
      else if e = ''kern.has_dispatcher'' then Some (if kern_has_dispatcher K then ''1'' else [])
      else None)"

definition arch_field :: "Arch \<Rightarrow> string \<Rightarrow> string option" where
  "arch_field A e =
     (if e = ''arch.name'' then Some (arch_name A)
      else if e = ''arch.name.upper()'' then Some (to_upper (arch_name A))
      else None)"

definition machine_field :: "Machine \<Rightarrow> string \<Rightarrow> string option" where
  "machine_field M e =
     (if e = ''this_machine.alignment'' then Some (to_string (machine_alignment M))
      else if e = ''this_machine.name'' then Some (machine_name M)
      else if e = ''machine.name'' then Some (machine_name M)
      else if e = ''machine.name.upper()'' then Some (to_upper (machine_name M))
      else None)"

definition arg_field :: "TemplateEngine \<Rightarrow> string \<Rightarrow> string option" where
  "arg_field eng e =
     (case current_kernel eng of
        None \<Rightarrow> None
      | Some K \<Rightarrow>
          if 0 \<le> current_arg_index eng \<and> current_arg_index eng < int (length (kern_args K))
          then (if e = ''arg_type'' then Some (fst (kern_args K ! nat (current_arg_index eng)))
                else if e = ''arg_name'' then Some (snd (kern_args K ! nat (current_arg_index eng)))
                else None)
          else None)"

definition check_field :: "TemplateEngine \<Rightarrow> string \<Rightarrow> string option" where
  "check_field eng e =
     (case current_arch eng of
        None \<Rightarrow> None
      | Some A \<Rightarrow>
          if 0 \<le> current_check_index eng \<and>
             current_check_index eng < int (length (arch_checks A)) \<and> e = ''check''
          then Some (fst (arch_checks A ! nat (current_check_index eng)))
          else None)"

text \<open>The first of a list of optional results that is there.\<close>

fun first_some :: "'a option list \<Rightarrow> 'a option" where
  "first_some [] = None"
| "first_some (None # xs) = first_some xs"
| "first_some (Some v # xs) = Some v"

text \<open>
  \<^verbatim>\<open>evaluate_expression\<close> (its argument \<^verbatim>\<open>extra_args\<close> is not used): the
  caller-set variables, the closing parentheses, the fields of the selections, the
  enumerate index, the architecture count, and the empty string for anything else.
\<close>

definition evaluate_expression :: "TemplateEngine \<Rightarrow> string \<Rightarrow> string" where
  "evaluate_expression eng expr =
     (let e = trim expr in
      case first_some
        [map_find (vars eng) e,
         if e = ''end_open_parens'' then Some (end_open_parens eng) else None,
         case current_kernel eng of None \<Rightarrow> None | Some K \<Rightarrow> kernel_field K e,
         case current_arch eng of None \<Rightarrow> None | Some A \<Rightarrow> arch_field A e,
         case current_machine eng of None \<Rightarrow> None | Some M \<Rightarrow> machine_field M e,
         arg_field eng e,
         check_field eng e,
         if e = ''i'' \<and> 0 \<le> current_enum_index eng
         then Some (to_string (current_enum_index eng)) else None,
         if e = ''len_archs'' \<and> 0 < len_archs eng
         then Some (to_string (int (len_archs eng))) else None]
      of Some v \<Rightarrow> v | None \<Rightarrow> [])"

subsection \<open>Conditions\<close>

text \<open>
  The one exception of the engine: \<^verbatim>\<open>std::stoi\<close> throws when the slice length does
  not fit an \<^verbatim>\<open>int\<close>, and nothing in \<^verbatim>\<open>render\<close> catches it.
\<close>

datatype error = OutOfRange

definition digits_value :: "string \<Rightarrow> nat" where
  "digits_value ds = foldl (\<lambda>n c. 10 * n + ((of_char c :: nat) - 48)) 0 ds"

definition stoi :: "string \<Rightarrow> error + nat" where
  "stoi ds = (if digits_value ds \<le> 2147483647 then Inr (digits_value ds) else Inl OutOfRange)"

text \<open>
  \<^verbatim>\<open>slice_eq_re\<close>, matched against the whole condition: a dotted path (the longest run
  of word characters and dots, which must have no empty component), \<^verbatim>\<open>[:\<close>, digits,
  \<^verbatim>\<open>]\<close>, \<^verbatim>\<open>==\<close> and a literal in double quotes at the end.
\<close>

definition slice_eq_re :: "string \<Rightarrow> (string \<times> string \<times> string) option" where
  "slice_eq_re c =
     (case span1 is_path c of None \<Rightarrow> None | Some (var, s) \<Rightarrow>
      if [] \<in> set (split var (CHR ''.'')) then None else
      case strip_prefix ''[:'' s of None \<Rightarrow> None | Some s1 \<Rightarrow>
      case span1 is_digit s1 of None \<Rightarrow> None | Some (len, s2) \<Rightarrow>
      case strip_prefix '']'' s2 of None \<Rightarrow> None | Some s3 \<Rightarrow>
      case strip_prefix ''=='' (skip_spaces s3) of None \<Rightarrow> None | Some s4 \<Rightarrow>
      case strip_prefix [CHR 0x22] (skip_spaces s4) of None \<Rightarrow> None | Some s5 \<Rightarrow>
      if dropWhile (\<lambda>x. x \<noteq> CHR 0x22) s5 = [CHR 0x22]
      then Some (var, len, takeWhile (\<lambda>x. x \<noteq> CHR 0x22) s5) else None)"

text \<open>A literal in the quotes \<^verbatim>\<open>q\<close>, not empty: \<^verbatim>\<open>'([^']+)'\<close> and its double-quote twin.\<close>

definition quoted :: "char \<Rightarrow> string \<Rightarrow> (string \<times> string) option" where
  "quoted q s =
     (case strip_prefix [q] s of
        None \<Rightarrow> None
      | Some r \<Rightarrow>
          if takeWhile (\<lambda>x. x \<noteq> q) r = [] \<or> dropWhile (\<lambda>x. x \<noteq> q) r = [] then None
          else Some (takeWhile (\<lambda>x. x \<noteq> q) r, tl (dropWhile (\<lambda>x. x \<noteq> q) r)))"

text \<open>\<^verbatim>\<open>star_re\<close>: \<^verbatim>\<open>'([^']+)'\s+in\s+(\w+)\<close>.\<close>

definition star_re :: "string \<Rightarrow> (string \<times> string) option" where
  "star_re c =
     (case quoted (CHR 0x27) c of None \<Rightarrow> None | Some (needle, s) \<Rightarrow>
      case spaced_in s of None \<Rightarrow> None | Some s1 \<Rightarrow>
      case span1 is_word s1 of None \<Rightarrow> None | Some (v, s2) \<Rightarrow>
      if s2 = [] then Some (needle, v) else None)"

text \<open>\<^verbatim>\<open>str_in_re\<close>: a literal in double quotes, \<^verbatim>\<open>\s+in\s+\<close> and \<^verbatim>\<open>(\S+)\<close>.\<close>

definition str_in_re :: "string \<Rightarrow> (string \<times> string) option" where
  "str_in_re c =
     (case quoted (CHR 0x22) c of None \<Rightarrow> None | Some (needle, s) \<Rightarrow>
      case spaced_in s of None \<Rightarrow> None | Some s1 \<Rightarrow>
      case span1 (\<lambda>x. \<not> is_space x) s1 of None \<Rightarrow> None | Some (v, s2) \<Rightarrow>
      if s2 = [] then Some (needle, v) else None)"

text \<open>\<^verbatim>\<open>in_re\<close>: \<^verbatim>\<open>(\S+)\s+in\s+(\S+)\<close>.\<close>

definition in_re :: "string \<Rightarrow> (string \<times> string) option" where
  "in_re c =
     (case span1 (\<lambda>x. \<not> is_space x) c of None \<Rightarrow> None | Some (item, s) \<Rightarrow>
      case spaced_in s of None \<Rightarrow> None | Some s1 \<Rightarrow>
      case span1 (\<lambda>x. \<not> is_space x) s1 of None \<Rightarrow> None | Some (coll, s2) \<Rightarrow>
      if s2 = [] then Some (item, coll) else None)"

definition deprecated :: "string list" where
  "deprecated =
     [''volk_16i_x5_add_quad_16i_x4'', ''volk_16i_branch_4_state_8'',
      ''volk_16i_max_star_16i'', ''volk_16i_max_star_horizontal_16i'',
      ''volk_16i_permute_and_scalar_add'', ''volk_16i_x4_quad_max_star_16i'',
      ''volk_32fc_s32fc_multiply_32fc'', ''volk_32fc_s32fc_x2_rotator_32fc'',
      ''volk_32fc_x2_s32fc_multiply_conjugate_add_32fc'']"

text \<open>A condition without \<^verbatim>\<open>or\<close> and \<^verbatim>\<open>and\<close>, already trimmed.\<close>

definition simple_condition :: "TemplateEngine \<Rightarrow> string \<Rightarrow> error + bool" where
  "simple_condition eng c =
     (case slice_eq_re c of
        Some (var, len, expected) \<Rightarrow>
          (case stoi len of
             Inl err \<Rightarrow> Inl err
           | Inr n \<Rightarrow> Inr (take n (evaluate_expression eng var) = expected))
      | None \<Rightarrow>
     (case star_re c of
        Some (needle, v) \<Rightarrow> Inr (find_sub needle (evaluate_expression eng v) \<noteq> None)
      | None \<Rightarrow>
     (case str_in_re c of
        Some (needle, v) \<Rightarrow> Inr (find_sub needle (evaluate_expression eng v) \<noteq> None)
      | None \<Rightarrow>
     (case in_re c of
        Some (item, coll) \<Rightarrow>
          Inr (coll = ''deprecated_kernels'' \<and> evaluate_expression eng item \<in> set deprecated)
      | None \<Rightarrow>
          if CHR ''.'' \<in> set c
          then Inr (evaluate_expression eng c \<noteq> [] \<and> evaluate_expression eng c \<noteq> ''0'' \<and>
                    evaluate_expression eng c \<noteq> ''false'')
          else Inr False))))"

lemma strip_prefix_Some: "strip_prefix p s = Some r \<Longrightarrow> s = p @ r"
  by (induction p s rule: strip_prefix.induct) (auto split: if_splits)

lemma find_sub_Some: "find_sub pat s = Some (b, a) \<Longrightarrow> s = b @ pat @ a"
proof (induction s arbitrary: b)
  case Nil
  then show ?case by (simp split: if_splits)
next
  case (Cons c cs)
  show ?case
  proof (cases "strip_prefix pat (c # cs)")
    case (Some rest)
    with Cons.prems show ?thesis by (simp add: strip_prefix_Some)
  next
    case None
    with Cons.prems obtain b' where "find_sub pat cs = Some (b', a)" "b = c # b'"
      by (auto split: option.splits)
    with Cons.IH show ?thesis by simp
  qed
qed

lemma trim_length: "length (trim s) \<le> length s"
proof -
  have "length (trim s) \<le> length (dropWhile is_trim s)"
    unfolding trim_def using length_dropWhile_le [of is_trim "rev (dropWhile is_trim s)"] by simp
  also have "\<dots> \<le> length s" by (rule length_dropWhile_le)
  finally show ?thesis .
qed

lemma find_sub_trim_shorter:
  assumes "find_sub pat (trim cond) = Some (left, right)" and "pat \<noteq> []"
  shows "length left < length cond" and "length right < length cond"
proof -
  from find_sub_Some [OF assms(1)] have "length (trim cond) = length left + length pat + length right"
    by simp
  moreover from assms(2) have "0 < length pat" by simp
  ultimately have "length left < length (trim cond)" "length right < length (trim cond)"
    by simp_all
  with trim_length [of cond] show "length left < length cond" and "length right < length cond"
    by simp_all
qed

text \<open>
  \<^verbatim>\<open>evaluate_condition\<close>: the condition is trimmed and cut at the first \<^verbatim>\<open>or\<close>, else
  at the first \<^verbatim>\<open>and\<close>; the right side is evaluated only when the left side does not
  decide.
\<close>

function evaluate_condition :: "TemplateEngine \<Rightarrow> string \<Rightarrow> error + bool" where
  "evaluate_condition eng cond =
     (case find_sub '' or '' (trim cond) of
        Some (left, right) \<Rightarrow>
          (case evaluate_condition eng left of
             Inl err \<Rightarrow> Inl err
           | Inr True \<Rightarrow> Inr True
           | Inr False \<Rightarrow> evaluate_condition eng right)
      | None \<Rightarrow>
     (case find_sub '' and '' (trim cond) of
        Some (left, right) \<Rightarrow>
          (case evaluate_condition eng left of
             Inl err \<Rightarrow> Inl err
           | Inr False \<Rightarrow> Inr False
           | Inr True \<Rightarrow> evaluate_condition eng right)
      | None \<Rightarrow> simple_condition eng (trim cond)))"
  by pat_completeness auto
termination
  by (relation "measure (\<lambda>(eng, cond). length cond)")
     (auto dest: find_sub_trim_shorter)

declare evaluate_condition.simps [simp del]

subsection \<open>Code blocks\<close>

definition quote :: "string \<Rightarrow> string" where
  "quote s = [CHR 0x22] @ s @ [CHR 0x22]"

definition lv_bit :: "string \<Rightarrow> string" where
  "lv_bit name = ''(1 << LV_'' @ to_upper name @ '')''"

definition braces :: "string list \<Rightarrow> string" where
  "braces xs = ''{'' @ join xs '', '' @ ''}''"

text \<open>
  \<^verbatim>\<open>execute_code_block\<close>: the patterns in the order of the source. A pattern whose
  branch also asks for a selection is passed over when the selection is missing. The
  result is the text put in place of the block, and the engine.
\<close>

definition execute_code_block ::
  "Catalog \<Rightarrow> TemplateEngine \<Rightarrow> string \<Rightarrow> string list \<Rightarrow> string \<times> TemplateEngine" where
  "execute_code_block cat eng code extra_args =
     (let c = trim code in
      if search_pieces [''this_machine'', ''='', ''machine_dict[args[0]]''] c then
        ([], case extra_args of
               [] \<Rightarrow> eng
             | a # rest \<Rightarrow>
                 (case map_find (g_machine_dict cat) a of
                    None \<Rightarrow> eng
                  | Some M \<Rightarrow> eng\<lparr>current_machine := Some M\<rparr>))
      else if search_pieces [''arch_names'', ''='', ''this_machine.arch_names''] c then ([], eng)
      else if search_pieces [''num_open_parens'', ''='', ''0''] c then
        ([], eng\<lparr>num_open_parens := 0\<rparr>)
      else if search_pieces [''num_open_parens'', ''+='', ''1''] c then
        ([], eng\<lparr>num_open_parens := Suc (num_open_parens eng)\<rparr>)
      else if search_pieces
          [''end_open_parens'', ''='', [CHR 0x27] @ '')'' @ [CHR 0x27] @ ''*num_open_parens''] c then
        ([], eng\<lparr>end_open_parens := replicate (num_open_parens eng) (CHR '')'')\<rparr>)
      else if search_pieces [''impls'', ''='', ''kern.get_impls(arch_names)''] c \<and>
          current_kernel eng \<noteq> None \<and> current_machine eng \<noteq> None then
        ([], eng\<lparr>current_impls :=
               get_impls (the (current_kernel eng))
                 (set (machine_arch_names (the (current_machine eng))))\<rparr>)
      else if search_pieces [''make_arch_have_list'', ''=''] c \<and> current_machine eng \<noteq> None then
        (join (map (\<lambda>a. lv_bit (arch_name a)) (machine_archs (the (current_machine eng)))) '' | '',
         eng)
      else if search_pieces [''this_machine_name'', ''=''] c \<and> current_machine eng \<noteq> None then
        (quote (machine_name (the (current_machine eng))), eng)
      else if search_pieces [''kern_name'', ''=''] c \<and> current_kernel eng \<noteq> None then
        (quote (kern_name (the (current_kernel eng))), eng)
      else if search_pieces [''make_impl_name_list'', ''=''] c then
        (braces (map (\<lambda>i. quote (impl_name i)) (current_impls eng)), eng)
      else if search_pieces [''make_impl_deps_list'', ''=''] c then
        (braces (map (\<lambda>i. if impl_deps i = [] then ''0''
                            else join (map lv_bit (impl_deps i)) '' | '') (current_impls eng)),
         eng)
      else if search_pieces [''make_impl_align_list'', ''=''] c then
        (braces (map (\<lambda>i. if impl_is_aligned i then ''true'' else ''false'') (current_impls eng)),
         eng)
      else if search_pieces [''make_impl_fcn_list'', ''=''] c \<and> current_kernel eng \<noteq> None then
        (braces (map (\<lambda>i. kern_name (the (current_kernel eng)) @ ''_'' @ impl_name i)
                   (current_impls eng)),
         eng)
      else if search_pieces [''len_impls'', ''=''] c then
        (to_string (int (length (current_impls eng))), eng)
      else if search_pieces [''len_archs'', ''='', ''len(archs)''] c then
        ([], eng\<lparr>len_archs := length (g_archs cat)\<rparr>)
      else ([], eng))"

subsection \<open>The two substitution passes of a line\<close>

text \<open>
  Both loops run while the pattern is found and stop after \<^verbatim>\<open>processed.size() + 100\<close>
  rounds, the size taken before the loop; the first argument counts the rounds left.
\<close>

fun code_blocks_loop ::
  "Catalog \<Rightarrow> string list \<Rightarrow> nat \<Rightarrow> TemplateEngine \<Rightarrow> string \<Rightarrow> string \<times> TemplateEngine" where
  "code_blocks_loop cat extra_args 0 eng processed = (processed, eng)"
| "code_blocks_loop cat extra_args (Suc n) eng processed =
     (case code_block_re processed of
        None \<Rightarrow> (processed, eng)
      | Some (prefix, code, suffix) \<Rightarrow>
          (case execute_code_block cat eng code extra_args of
             (replacement, eng') \<Rightarrow>
               code_blocks_loop cat extra_args n eng' (prefix @ replacement @ suffix)))"

fun vars_loop :: "nat \<Rightarrow> TemplateEngine \<Rightarrow> string \<Rightarrow> string" where
  "vars_loop 0 eng processed = processed"
| "vars_loop (Suc n) eng processed =
     (case var_re processed of
        None \<Rightarrow> processed
      | Some (prefix, expr, suffix) \<Rightarrow>
          vars_loop n eng (prefix @ evaluate_expression eng expr @ suffix))"

definition substitute_vars :: "TemplateEngine \<Rightarrow> string \<Rightarrow> string" where
  "substitute_vars eng processed = vars_loop (length processed + 100) eng processed"

text \<open>
  The end of \<^verbatim>\<open>process_line\<close> for an ordinary line: code blocks, variables, then
  the line is dropped when it starts with \<^verbatim>\<open>##\<close> and gets its newline otherwise.
\<close>

definition substitute_line ::
  "Catalog \<Rightarrow> string list \<Rightarrow> TemplateEngine \<Rightarrow> string \<Rightarrow> string \<times> TemplateEngine" where
  "substitute_line cat extra_args eng input_line =
     (case code_blocks_loop cat extra_args (length input_line + 100) eng input_line of
        (processed, eng') \<Rightarrow>
          (let processed' = substitute_vars eng' processed
           in if strip_prefix ''##'' processed' \<noteq> None then ([], eng')
              else (processed' @ [CHR 0x0A], eng')))"

subsection \<open>Loops\<close>

text \<open>
  \<^verbatim>\<open>LoopState\<close> and \<^verbatim>\<open>IfState\<close> without the fields that are never read
  (\<^verbatim>\<open>index\<close>, and the \<^verbatim>\<open>depth\<close> of \<^verbatim>\<open>IfState\<close>). The top of a stack is the head
  of the list.
\<close>

record LoopState =
  loop_var_name :: string
  loop_index_var_name :: string
  loop_collection :: string
  loop_body :: string
  loop_collecting :: bool
  loop_is_enumerate :: bool
  loop_depth :: int

record IfState =
  if_condition_met :: bool
  if_in_else :: bool

text \<open>The state of one call of \<^verbatim>\<open>render\<close>: the engine and the locals of the call.\<close>

record RenderState =
  engine :: TemplateEngine
  loop_stack :: "LoopState list"
  if_stack :: "IfState list"
  in_multiline_block :: bool
  multiline_block_content :: string

text \<open>The three loop patterns, tried in the order of the source.\<close>

definition open_loop :: "string \<Rightarrow> LoopState option" where
  "open_loop line =
     (case for_enum_re line of
        Some (i, v, coll) \<Rightarrow>
          Some \<lparr> loop_var_name = v, loop_index_var_name = i, loop_collection = coll,
                 loop_body = [], loop_collecting = True, loop_is_enumerate = True,
                 loop_depth = 1 \<rparr>
      | None \<Rightarrow>
     (case for_tuple_re line of
        Some (i, v, coll) \<Rightarrow>
          Some \<lparr> loop_var_name = v, loop_index_var_name = i, loop_collection = coll,
                 loop_body = [], loop_collecting = True, loop_is_enumerate = False,
                 loop_depth = 1 \<rparr>
      | None \<Rightarrow>
     (case for_re line of
        Some (v, coll) \<Rightarrow>
          Some \<lparr> loop_var_name = v, loop_index_var_name = [], loop_collection = coll,
                 loop_body = [], loop_collecting = True, loop_is_enumerate = False,
                 loop_depth = 1 \<rparr>
      | None \<Rightarrow> None)))"

definition is_for :: "string \<Rightarrow> bool" where
  "is_for line \<longleftrightarrow> for_re line \<noteq> None \<or> for_enum_re line \<noteq> None \<or> for_tuple_re line \<noteq> None"

text \<open>
  One of the loops of the \<^verbatim>\<open>endfor\<close> branch: for every element, in order, the
  selection is set and the body is rendered by \<^verbatim>\<open>render_block\<close> (the argument
  \<^verbatim>\<open>rb\<close>); the outputs are appended. \<^verbatim>\<open>i\<close> is the index of the element.
\<close>

fun loop_over ::
  "(TemplateEngine \<Rightarrow> error + string \<times> TemplateEngine) \<Rightarrow>
   (nat \<Rightarrow> 'a \<Rightarrow> TemplateEngine \<Rightarrow> TemplateEngine) \<Rightarrow> nat \<Rightarrow> 'a list \<Rightarrow>
   string \<Rightarrow> TemplateEngine \<Rightarrow> error + string \<times> TemplateEngine" where
  "loop_over rb select i [] loop_output eng = Inr (loop_output, eng)"
| "loop_over rb select i (x # xs) loop_output eng =
     (case rb (select i x eng) of
        Inl err \<Rightarrow> Inl err
      | Inr (out, eng') \<Rightarrow> loop_over rb select (Suc i) xs (loop_output @ out) eng')"

definition after_loop ::
  "(TemplateEngine \<Rightarrow> TemplateEngine) \<Rightarrow> error + string \<times> TemplateEngine \<Rightarrow>
   error + string \<times> TemplateEngine" where
  "after_loop reset r = (case r of Inl err \<Rightarrow> Inl err | Inr (out, eng) \<Rightarrow> Inr (out, reset eng))"

text \<open>
  The execution of a closed loop: the chain of tests on \<^verbatim>\<open>state.collection\<close>. The
  loop over the machines sets no enumerate index. A collection that no branch takes
  gives the empty \<^verbatim>\<open>loop_output\<close>.
\<close>

definition execute_loop ::
  "Catalog \<Rightarrow> (TemplateEngine \<Rightarrow> string \<Rightarrow> error + string \<times> TemplateEngine) \<Rightarrow>
   LoopState \<Rightarrow> TemplateEngine \<Rightarrow> error + string \<times> TemplateEngine" where
  "execute_loop cat render_block state eng =
     (let rb = (\<lambda>e. render_block e (loop_body state)) in
      if loop_collection state = ''kernels'' then
        after_loop (\<lambda>e. e\<lparr>current_kernel := None, current_enum_index := - 1\<rparr>)
          (loop_over rb
             (\<lambda>i k e. if loop_is_enumerate state
                        then e\<lparr>current_kernel := Some k, current_enum_index := int i\<rparr>
                        else e\<lparr>current_kernel := Some k\<rparr>)
             0 (g_kernels cat) [] eng)
      else if loop_collection state = ''archs'' then
        after_loop (\<lambda>e. e\<lparr>current_arch := None, current_enum_index := - 1\<rparr>)
          (loop_over rb
             (\<lambda>i a e. if loop_is_enumerate state
                        then e\<lparr>current_arch := Some a, current_enum_index := int i\<rparr>
                        else e\<lparr>current_arch := Some a\<rparr>)
             0 (g_archs cat) [] eng)
      else if loop_collection state = ''machines'' then
        after_loop (\<lambda>e. e\<lparr>current_machine := None\<rparr>)
          (loop_over rb (\<lambda>i m e. e\<lparr>current_machine := Some m\<rparr>) 0 (g_machines cat) [] eng)
      else if loop_collection state = ''this_machine.archs'' \<and> current_machine eng \<noteq> None then
        after_loop (\<lambda>e. e\<lparr>current_arch := None\<rparr>)
          (loop_over rb (\<lambda>i a e. e\<lparr>current_arch := Some a\<rparr>) 0
             (machine_archs (the (current_machine eng))) [] eng)
      else if loop_collection state = ''kern.args'' \<and> current_kernel eng \<noteq> None then
        after_loop (\<lambda>e. e\<lparr>current_arg_index := - 1\<rparr>)
          (loop_over rb (\<lambda>i a e. e\<lparr>current_arg_index := int i\<rparr>) 0
             (kern_args (the (current_kernel eng))) [] eng)
      else if loop_collection state = ''arch.checks'' \<and> current_arch eng \<noteq> None then
        after_loop (\<lambda>e. e\<lparr>current_check_index := - 1\<rparr>)
          (loop_over rb (\<lambda>i c e. e\<lparr>current_check_index := int i\<rparr>) 0
             (arch_checks (the (current_arch eng))) [] eng)
      else Inr ([], eng))"

subsection \<open>process\_line and render\<close>

text \<open>
  The branches of the conditional directives, the test that drops a line of a branch
  not taken, and the substitution of an ordinary line.
\<close>

definition process_conditional ::
  "Catalog \<Rightarrow> string list \<Rightarrow> RenderState \<Rightarrow> string \<Rightarrow> error + string \<times> RenderState" where
  "process_conditional cat extra_args rs input_line =
     (case if_re input_line of
        Some cond \<Rightarrow>
          (case evaluate_condition (engine rs) cond of
             Inl err \<Rightarrow> Inl err
           | Inr b \<Rightarrow>
               Inr ([], rs\<lparr>if_stack :=
                               \<lparr> if_condition_met = b, if_in_else = False \<rparr> # if_stack rs\<rparr>))
      | None \<Rightarrow>
     (case if_stack rs of
        [] \<Rightarrow>
          (case substitute_line cat extra_args (engine rs) input_line of
             (out, eng') \<Rightarrow> Inr (out, rs\<lparr>engine := eng'\<rparr>))
      | state # rest \<Rightarrow>
          (case elif_re input_line of
             Some cond \<Rightarrow>
               if \<not> if_condition_met state then
                 (case evaluate_condition (engine rs) cond of
                    Inl err \<Rightarrow> Inl err
                  | Inr b \<Rightarrow>
                      Inr ([], rs\<lparr>if_stack :=
                                      state\<lparr>if_condition_met := b, if_in_else := False\<rparr> # rest\<rparr>))
               else Inr ([], rs\<lparr>if_stack := state\<lparr>if_in_else := True\<rparr> # rest\<rparr>)
           | None \<Rightarrow>
               if else_re input_line then
                 (if \<not> if_condition_met state
                  then Inr ([], rs\<lparr>if_stack :=
                                       state\<lparr>if_condition_met := True, if_in_else := False\<rparr> # rest\<rparr>)
                  else Inr ([], rs\<lparr>if_stack := state\<lparr>if_in_else := True\<rparr> # rest\<rparr>))
               else if endif_re input_line then Inr ([], rs\<lparr>if_stack := rest\<rparr>)
               else if \<not> if_condition_met state \<or> if_in_else state then Inr ([], rs)
               else
                 (case substitute_line cat extra_args (engine rs) input_line of
                    (out, eng') \<Rightarrow> Inr (out, rs\<lparr>engine := eng'\<rparr>)))))"

text \<open>
  A line that starts a multi-line block: it holds a \<^verbatim>\<open><%\<close> with no \<^verbatim>\<open>%>\<close> after
  it. The result is the text before and after the \<^verbatim>\<open><%\<close>.
\<close>

definition opens_block :: "string \<Rightarrow> (string \<times> string) option" where
  "opens_block line =
     (case find_sub ''<%'' line of
        None \<Rightarrow> None
      | Some (before, after) \<Rightarrow>
          (case find_sub ''%>'' after of None \<Rightarrow> Some (before, after) | Some x \<Rightarrow> None))"

text \<open>
  The \<^verbatim>\<open>endfor\<close> branch and the collection of a loop body. An \<^verbatim>\<open>endfor\<close> lowers
  the depth of the loop on top of the stack; at depth zero the loop is executed and
  popped. Otherwise a loop that is collecting takes the line into its body. The
  assertion on the depth cannot fail: a loop is pushed at depth one, the depth is
  raised only while the loop is on the stack, and the loop is popped when it is zero.
\<close>

definition process_loop_line ::
  "Catalog \<Rightarrow> (TemplateEngine \<Rightarrow> string \<Rightarrow> error + string \<times> TemplateEngine) \<Rightarrow>
   string list \<Rightarrow> RenderState \<Rightarrow> string \<Rightarrow> error + string \<times> RenderState" where
  "process_loop_line cat render_block extra_args rs input_line =
     (case loop_stack rs of
        [] \<Rightarrow> process_conditional cat extra_args rs input_line
      | state # rest \<Rightarrow>
          (let state1 = (if endfor_re input_line
                         then state\<lparr>loop_depth := loop_depth state - 1\<rparr> else state)
           in if endfor_re input_line \<and> loop_depth state1 = 0 then
                (case execute_loop cat render_block state1 (engine rs) of
                   Inl err \<Rightarrow> Inl err
                 | Inr (loop_output, eng') \<Rightarrow>
                     Inr (loop_output, rs\<lparr>engine := eng', loop_stack := rest\<rparr>))
              else if loop_collecting state1 then
                (let state2 = (if is_for input_line
                               then state1\<lparr>loop_depth := loop_depth state1 + 1\<rparr> else state1);
                     state3 = (if \<not> endfor_re input_line \<or> 0 < loop_depth state2
                               then state2\<lparr>loop_body := loop_body state2 @ input_line @ [CHR 0x0A]\<rparr>
                               else state2)
                 in Inr ([], rs\<lparr>loop_stack := state3 # rest\<rparr>))
              else process_conditional cat extra_args (rs\<lparr>loop_stack := state1 # rest\<rparr>)
                     input_line))"

text \<open>
  \<^verbatim>\<open>process_line\<close>, the lambda of \<^verbatim>\<open>render\<close>: the multi-line block, the start of
  one, the start of a loop (only when no loop is collecting), then the rest.
\<close>

definition process_line ::
  "Catalog \<Rightarrow> (TemplateEngine \<Rightarrow> string \<Rightarrow> error + string \<times> TemplateEngine) \<Rightarrow>
   string list \<Rightarrow> RenderState \<Rightarrow> string \<Rightarrow> error + string \<times> RenderState" where
  "process_line cat render_block extra_args rs input_line =
     (if in_multiline_block rs then
        (case find_sub ''%>'' input_line of
           Some (before, after) \<Rightarrow>
             (case execute_code_block cat (engine rs) (multiline_block_content rs @ before)
                     extra_args of
                (replacement, eng') \<Rightarrow>
                  Inr (replacement,
                       rs\<lparr>engine := eng', in_multiline_block := False,
                          multiline_block_content := []\<rparr>))
         | None \<Rightarrow>
             Inr ([], rs\<lparr>multiline_block_content :=
                             multiline_block_content rs @ input_line @ [CHR 0x0A]\<rparr>))
      else
        (case opens_block input_line of
           Some (before, after) \<Rightarrow>
             Inr (before,
                  rs\<lparr>in_multiline_block := True,
                     multiline_block_content := after @ [CHR 0x0A]\<rparr>)
         | None \<Rightarrow>
             (case (if loop_stack rs = [] \<or> \<not> loop_collecting (hd (loop_stack rs))
                    then open_loop input_line else None) of
                Some state \<Rightarrow> Inr ([], rs\<lparr>loop_stack := state # loop_stack rs\<rparr>)
              | None \<Rightarrow> process_loop_line cat render_block extra_args rs input_line)))"

text \<open>The loop of \<^verbatim>\<open>render\<close> over the lines, appending what each line gives.\<close>

fun render_lines ::
  "(RenderState \<Rightarrow> string \<Rightarrow> error + string \<times> RenderState) \<Rightarrow> string list \<Rightarrow> string \<Rightarrow>
   RenderState \<Rightarrow> error + string \<times> RenderState" where
  "render_lines step [] result rs = Inr (result, rs)"
| "render_lines step (line # lines) result rs =
     (case step rs line of
        Inl err \<Rightarrow> Inl err
      | Inr (out, rs') \<Rightarrow> render_lines step lines (result @ out) rs')"

text \<open>
  The engine \<^verbatim>\<open>render_block\<close> makes for a loop body: every field is copied but
  \<^verbatim>\<open>current_impls_\<close>. After the nested render three fields are copied back, and the
  banner is cut from the front of the result.
\<close>

definition sub_engine :: "TemplateEngine \<Rightarrow> TemplateEngine" where
  "sub_engine eng =
     \<lparr> vars = vars eng, current_kernel = current_kernel eng, current_arch = current_arch eng,
       current_machine = current_machine eng, current_impl = current_impl eng,
       current_arg_index = current_arg_index eng, current_check_index = current_check_index eng,
       current_enum_index = current_enum_index eng, num_open_parens = num_open_parens eng,
       end_open_parens = end_open_parens eng, current_impls = [], len_archs = len_archs eng \<rparr>"

definition copy_back :: "TemplateEngine \<Rightarrow> TemplateEngine \<Rightarrow> TemplateEngine" where
  "copy_back eng sub =
     eng\<lparr>num_open_parens := num_open_parens sub, end_open_parens := end_open_parens sub,
         current_impls := current_impls sub\<rparr>"

definition strip_banner :: "string \<Rightarrow> string" where
  "strip_banner result = (case strip_prefix banner result of Some rest \<Rightarrow> rest | None \<Rightarrow> result)"

definition start_state :: "TemplateEngine \<Rightarrow> RenderState" where
  "start_state eng =
     \<lparr> engine = eng, loop_stack = [], if_stack = [], in_multiline_block = False,
       multiline_block_content = [] \<rparr>"

text \<open>
  \<^verbatim>\<open>render\<close>, with the engine passed in and returned. The function given to
  \<^verbatim>\<open>process_line\<close> is \<^verbatim>\<open>render_block\<close>: at the maximal depth it gives the empty
  string, below it the nested render of the body at the next depth.
\<close>

function render ::
  "Catalog \<Rightarrow> nat \<Rightarrow> TemplateEngine \<Rightarrow> string \<Rightarrow> string list \<Rightarrow>
   error + string \<times> TemplateEngine" where
  "render cat render_depth eng tmpl extra_args =
     (case render_lines
        (process_line cat
           (\<lambda>e block.
              if max_render_depth \<le> render_depth then Inr ([], e)
              else (case render cat (Suc render_depth) (sub_engine e) block extra_args of
                      Inl err \<Rightarrow> Inl err
                    | Inr (result, sub) \<Rightarrow> Inr (strip_banner result, copy_back e sub)))
           extra_args)
        (getlines tmpl) banner (start_state eng) of
        Inl err \<Rightarrow> Inl err
      | Inr (result, rs) \<Rightarrow> Inr (result, engine rs))"
  by pat_completeness auto
termination
  by (relation "measure (\<lambda>(cat, render_depth, eng, tmpl, extra_args). max_render_depth - render_depth)")
     auto

declare render.simps [simp del]


section \<open>Notions for stating the properties\<close>

text \<open>
  What holds of every machine of the catalog, and of every kernel of the catalog. The
  architectures of a machine are values of the architecture dictionary, and its
  alignment is the greatest of theirs, counted from the start value 1 of
  \<^verbatim>\<open>max_align\<close>.
\<close>

definition machine_ok :: "(string \<times> Arch) list \<Rightarrow> Machine \<Rightarrow> bool" where
  "machine_ok dict M \<longleftrightarrow> machine_archs M \<noteq> [] \<and>
     set (machine_archs M) \<subseteq> snd ` set dict \<and>
     machine_alignment M = max 1 (Max (arch_alignment ` set (machine_archs M)))"

definition kernel_has_generic :: "Kernel \<Rightarrow> bool" where
  "kernel_has_generic K \<longleftrightarrow> (\<exists>i \<in> set (kern_impls K). impl_name i = ''generic'')"

text \<open>
  The template of the claim, each line ended by a newline; the body of its loop; the
  line that is written for every machine. The lines of an output are its pieces
  between newlines, and \<^verbatim>\<open>count_sub\<close> counts the places where a text occurs in
  another.
\<close>

definition tmpl_body :: string where
  "tmpl_body = ''%if i == 0:'' @ [CHR 0x0A] @ ''FIRST'' @ [CHR 0x0A] @ ''%else:'' @ [CHR 0x0A] @
               ''OTHER'' @ [CHR 0x0A] @ ''%endif'' @ [CHR 0x0A]"

definition tmpl_first_other :: string where
  "tmpl_first_other = ''%for i, m in enumerate(machines):'' @ [CHR 0x0A] @ tmpl_body @
                      ''%endfor'' @ [CHR 0x0A]"

definition other_line :: string where
  "other_line = ''OTHER'' @ [CHR 0x0A]"

definition first_other_output :: "Catalog \<Rightarrow> string" where
  "first_other_output cat = banner @ concat (replicate (length (g_machines cat)) other_line)"

fun count_sub :: "string \<Rightarrow> string \<Rightarrow> nat" where
  "count_sub pat [] = (if pat = [] then 1 else 0)"
| "count_sub pat (c # cs) =
     (if strip_prefix pat (c # cs) \<noteq> None then 1 else 0) + count_sub pat cs"

definition output_lines :: "string \<Rightarrow> string list" where
  "output_lines out = split out (CHR 0x0A)"

text \<open>
  The expressions an engine resolves in its present state: the caller-set variables,
  \<^verbatim>\<open>end_open_parens\<close>, the fields of the selections that are active, the enumerate
  index and the architecture count when they are set.
\<close>

definition resolvable :: "TemplateEngine \<Rightarrow> string list" where
  "resolvable eng =
     map fst (vars eng) @ [''end_open_parens''] @
     (if current_kernel eng \<noteq> None
      then [''kern.name'', ''kern.pname'', ''kern.arglist_full'', ''kern.arglist_names'',
            ''kern.arglist_types'', ''kern.has_dispatcher'']
      else []) @
     (if current_arch eng \<noteq> None then [''arch.name'', ''arch.name.upper()''] else []) @
     (if current_machine eng \<noteq> None
      then [''this_machine.alignment'', ''this_machine.name'', ''machine.name'',
            ''machine.name.upper()'']
      else []) @
     (case current_kernel eng of
        None \<Rightarrow> []
      | Some K \<Rightarrow>
          if 0 \<le> current_arg_index eng \<and> current_arg_index eng < int (length (kern_args K))
          then [''arg_type'', ''arg_name''] else []) @
     (case current_arch eng of
        None \<Rightarrow> []
      | Some A \<Rightarrow>
          if 0 \<le> current_check_index eng \<and> current_check_index eng < int (length (arch_checks A))
          then [''check''] else []) @
     (if 0 \<le> current_enum_index eng then [''i''] else []) @
     (if 0 < len_archs eng then [''len_archs''] else [])"

text \<open>
  A collection that the \<^verbatim>\<open>endfor\<close> branch does not execute in the present state of
  the engine: a name outside the six it knows, or one of the three selection-bound
  names while the selection is missing. \<^verbatim>\<open>balanced\<close> says that the lines between
  the opening and the closing line keep the depth of the loop above zero and bring it
  back to one, so that the closing line is the one that closes the loop.
\<close>

definition inert_collection :: "TemplateEngine \<Rightarrow> string \<Rightarrow> bool" where
  "inert_collection eng c \<longleftrightarrow>
     c \<notin> {''kernels'', ''archs'', ''machines'', ''this_machine.archs'', ''kern.args'',
           ''arch.checks''} \<or>
     (c = ''this_machine.archs'' \<and> current_machine eng = None) \<or>
     (c = ''kern.args'' \<and> current_kernel eng = None) \<or>
     (c = ''arch.checks'' \<and> current_arch eng = None)"

definition depth_after :: "int \<Rightarrow> string \<Rightarrow> int" where
  "depth_after d l = (if endfor_re l then d - 1 else d) + (if is_for l then 1 else 0)"

fun balanced :: "int \<Rightarrow> string list \<Rightarrow> bool" where
  "balanced d [] = (d = 1)"
| "balanced d (l # ls) = (\<not> (endfor_re l \<and> d = 1) \<and> balanced (depth_after d l) ls)"

text \<open>
  \<^verbatim>\<open>has_open\<close> says that \<^verbatim>\<open><%\<close> occurs in a text. A render of a template without
  it changes the engine only by the loops, which clear the selection they set and, by
  the copy back from the nested engine, the list of current implementations:
  \<^verbatim>\<open>settled\<close> relates the engine before to the engine after, every scratch field
  being as before or at its default.
\<close>

fun has_open :: "string \<Rightarrow> bool" where
  "has_open [] = False"
| "has_open [c] = False"
| "has_open (c # d # ds) = ((c = CHR ''<'' \<and> d = CHR ''%'') \<or> has_open (d # ds))"

definition body_ok :: "string \<Rightarrow> bool" where
  "body_ok b \<longleftrightarrow> \<not> has_open b \<and> (b = [] \<or> last b = CHR 0x0A)"

definition kept :: "'a \<Rightarrow> 'a \<Rightarrow> 'a \<Rightarrow> bool" where
  "kept d x y \<longleftrightarrow> y = x \<or> y = d"

definition settled :: "TemplateEngine \<Rightarrow> TemplateEngine \<Rightarrow> bool" where
  "settled eng eng' \<longleftrightarrow>
     vars eng' = vars eng \<and> current_impl eng' = current_impl eng \<and>
     num_open_parens eng' = num_open_parens eng \<and> end_open_parens eng' = end_open_parens eng \<and>
     len_archs eng' = len_archs eng \<and>
     kept None (current_kernel eng) (current_kernel eng') \<and>
     kept None (current_arch eng) (current_arch eng') \<and>
     kept None (current_machine eng) (current_machine eng') \<and>
     kept (- 1) (current_arg_index eng) (current_arg_index eng') \<and>
     kept (- 1) (current_check_index eng) (current_check_index eng') \<and>
     kept (- 1) (current_enum_index eng) (current_enum_index eng') \<and>
     kept [] (current_impls eng) (current_impls eng')"

definition gentle :: "(TemplateEngine \<Rightarrow> string \<Rightarrow> error + string \<times> TemplateEngine) \<Rightarrow> bool" where
  "gentle rb \<longleftrightarrow>
     (\<forall>e block out e'. \<not> has_open block \<longrightarrow> rb e block = Inr (out, e') \<longrightarrow>
        e' = e \<or> e' = e\<lparr>current_impls := []\<rparr>)"

definition calm :: "RenderState \<Rightarrow> bool" where
  "calm rs \<longleftrightarrow> \<not> in_multiline_block rs \<and> (\<forall>st \<in> set (loop_stack rs). body_ok (loop_body st))"

section \<open>Example data\<close>

text \<open>Concrete architectures, machines, kernels, engines and templates for the instances below.\<close>

definition arch_sse :: Arch where
  "arch_sse = \<lparr> arch_name = ''sse'', arch_environment = [], arch_include = [],
     arch_alignment = 16, arch_checks = [],
     arch_flags = [(''gnu'', [''-msse'']), (''clang'', [''-msse''])] \<rparr>"

definition kern_demo :: Kernel where
  "kern_demo = \<lparr> kern_name = ''volk_32f_add'', kern_pname = ''p_32f_add'',
     kern_impls =
       [\<lparr> impl_name = ''generic'', impl_deps = [], impl_args = [], impl_is_aligned = False \<rparr>,
        \<lparr> impl_name = ''a_avx'', impl_deps = [''avx''], impl_args = [], impl_is_aligned = True \<rparr>,
        \<lparr> impl_name = ''u_sse'', impl_deps = [''sse''], impl_args = [], impl_is_aligned = False \<rparr>],
     kern_args = [], kern_arglist_types = [], kern_arglist_full = [], kern_arglist_names = [],
     kern_has_dispatcher = False \<rparr>"

definition arch_generic :: Arch where
  "arch_generic = \<lparr> arch_name = ''generic'', arch_environment = [], arch_include = [],
     arch_alignment = 1, arch_checks = [], arch_flags = [] \<rparr>"

definition arch_avx :: Arch where
  "arch_avx = \<lparr> arch_name = ''avx'', arch_environment = [], arch_include = [],
     arch_alignment = 32, arch_checks = [], arch_flags = [(''gnu'', [''-mavx''])] \<rparr>"

definition arch_orc :: Arch where
  "arch_orc = \<lparr> arch_name = ''orc'', arch_environment = [], arch_include = [],
     arch_alignment = 1, arch_checks = [], arch_flags = [] \<rparr>"

definition dict_demo :: "(string \<times> Arch) list" where
  "dict_demo = [(''generic'', arch_generic), (''sse'', arch_sse), (''avx'', arch_avx),
                (''orc'', arch_orc)]"

definition arch_unaligned :: Arch where
  "arch_unaligned = \<lparr> arch_name = ''a'', arch_environment = [], arch_include = [],
     arch_alignment = 0, arch_checks = [], arch_flags = [] \<rparr>"

definition impl_generic :: Impl where
  "impl_generic = \<lparr> impl_name = ''generic'', impl_deps = [], impl_args = [(''float*'', ''out'')],
     impl_is_aligned = False \<rparr>"

definition impl_dispatcher :: Impl where
  "impl_dispatcher = \<lparr> impl_name = ''dispatcher'', impl_deps = [], impl_args = [],
     impl_is_aligned = False \<rparr>"

definition impl_a_sse :: Impl where
  "impl_a_sse = \<lparr> impl_name = ''a_sse'', impl_deps = [''sse''], impl_args = [],
     impl_is_aligned = True \<rparr>"

definition machine_demo :: "string \<Rightarrow> Machine" where
  "machine_demo name = \<lparr> machine_name = name, machine_arch_names = [''generic''],
     machine_archs = [arch_generic], machine_alignment = 1 \<rparr>"

definition cat_demo :: Catalog where
  "cat_demo = \<lparr> g_kernels = [kern_demo], g_archs = [arch_generic],
     g_machines = [machine_demo ''generic'', machine_demo ''other''] \<rparr>"

definition cat_one :: Catalog where
  "cat_one = \<lparr> g_kernels = [], g_archs = [arch_generic], g_machines = [machine_demo ''generic''] \<rparr>"

definition eng_demo :: TemplateEngine where
  "eng_demo = new_engine\<lparr>current_kernel := Some kern_demo\<rparr>"

definition lines_inert :: "string list" where
  "lines_inert = [''%for x in nothing:'', ''echo ${x}'', ''%for k in kernels:'', ''inner'',
                  ''%endfor'', ''%endfor'', ''tail'']"

definition tmpl_inert :: string where
  "tmpl_inert = concat (map (\<lambda>l. l @ [CHR 0x0A]) lines_inert)"

definition tmpl_parens :: string where
  "tmpl_parens = ''<% num_open_parens += 1 %><% end_open_parens = '' @ [CHR 0x27] @ '')'' @
     [CHR 0x27] @ ''*num_open_parens %>${end_open_parens}'' @ [CHR 0x0A]"

definition eng_once :: TemplateEngine where
  "eng_once = new_engine\<lparr>num_open_parens := 1, end_open_parens := '')''\<rparr>"

definition eng_twice :: TemplateEngine where
  "eng_twice = new_engine\<lparr>num_open_parens := 2, end_open_parens := ''))''\<rparr>"

section \<open>Properties of the data model\<close>

lemma map_find_None: "map_find kvs k = None \<longleftrightarrow> k \<notin> fst ` set kvs"
  by (induction kvs) (auto split: if_splits)

lemma map_find_Some:
  "distinct (map fst kvs) \<Longrightarrow> (k, v) \<in> set kvs \<Longrightarrow> map_find kvs k = Some v"
  by (induction kvs) (auto simp: rev_image_eqI)

text \<open>
  C9. An architecture is supported by a compiler exactly when it stores no flags at all
  or stores an entry for that compiler. \<^verbatim>\<open>get_flags\<close> returns the flag list stored
  under the compiler (the keys of the map being distinct), and the empty list when the
  compiler has no entry.
\<close>

theorem C9_is_supported_get_flags:
  "(is_supported A c \<longleftrightarrow> arch_flags A = [] \<or> c \<in> fst ` set (arch_flags A)) \<and>
   (distinct (map fst (arch_flags A)) \<longrightarrow>
      (\<forall>fs. (c, fs) \<in> set (arch_flags A) \<longrightarrow> get_flags A c = fs)) \<and>
   (c \<notin> fst ` set (arch_flags A) \<longrightarrow> get_flags A c = [])"
proof (intro conjI impI allI)
  show "is_supported A c \<longleftrightarrow> arch_flags A = [] \<or> c \<in> fst ` set (arch_flags A)"
    by (simp add: is_supported_def map_find_None)
next
  fix fs
  assume "distinct (map fst (arch_flags A))" and "(c, fs) \<in> set (arch_flags A)"
  then show "get_flags A c = fs"
    by (simp add: get_flags_def map_find_Some)
next
  assume "c \<notin> fst ` set (arch_flags A)"
  then have "map_find (arch_flags A) c = None"
    by (simp add: map_find_None)
  then show "get_flags A c = []"
    by (simp add: get_flags_def)
qed

theorem C9_is_supported_get_flags_witness:
  "is_supported arch_sse ''gnu'' \<and> \<not> is_supported arch_sse ''msvc'' \<and>
   get_flags arch_sse ''gnu'' = [''-msse''] \<and> get_flags arch_sse ''msvc'' = []"
proof -
  have d: "distinct (map fst (arch_flags arch_sse))"
    by (simp add: arch_sse_def)
  have m: "(''gnu'', [''-msse'']) \<in> set (arch_flags arch_sse)"
    by (simp add: arch_sse_def)
  have n: "''msvc'' \<notin> fst ` set (arch_flags arch_sse)"
    by (simp add: arch_sse_def)
  have g: "''gnu'' \<in> fst ` set (arch_flags arch_sse)"
    by (simp add: arch_sse_def)
  have ne: "arch_flags arch_sse \<noteq> []"
    by (simp add: arch_sse_def)
  from C9_is_supported_get_flags [of arch_sse "''gnu''"] d m g
  have 1: "is_supported arch_sse ''gnu'' \<and> get_flags arch_sse ''gnu'' = [''-msse'']"
    by blast
  from C9_is_supported_get_flags [of arch_sse "''msvc''"] n ne
  have 2: "\<not> is_supported arch_sse ''msvc'' \<and> get_flags arch_sse ''msvc'' = []"
    by blast
  from 1 2 show ?thesis by blast
qed

lemma all_deps_satisfied_iff: "all_deps_satisfied deps S \<longleftrightarrow> set deps \<subseteq> S"
  by (induction deps) auto

lemma get_impls_loop_filter:
  "get_impls_loop impls S result = result @ filter (\<lambda>i. set (impl_deps i) \<subseteq> S) impls"
  by (induction impls arbitrary: result) (auto simp: all_deps_satisfied_iff)

text \<open>
  C2. \<^verbatim>\<open>get_impls\<close> returns exactly the implementations of the kernel whose
  dependencies all lie in the given set, in the order of \<^verbatim>\<open>impls\<close>; an
  implementation of the kernel without dependencies is returned for every set.
\<close>

theorem C2_get_impls:
  "get_impls K S = filter (\<lambda>i. set (impl_deps i) \<subseteq> S) (kern_impls K) \<and>
   (\<forall>i \<in> set (kern_impls K). impl_deps i = [] \<longrightarrow> i \<in> set (get_impls K S))"
proof
  show eq: "get_impls K S = filter (\<lambda>i. set (impl_deps i) \<subseteq> S) (kern_impls K)"
    unfolding get_impls_def using get_impls_loop_filter [of "kern_impls K" S "[]"] by simp
  show "\<forall>i \<in> set (kern_impls K). impl_deps i = [] \<longrightarrow> i \<in> set (get_impls K S)"
  proof (intro ballI impI)
    fix i
    assume "i \<in> set (kern_impls K)" and "impl_deps i = []"
    then show "i \<in> set (get_impls K S)"
      unfolding eq by simp
  qed
qed

theorem C2_get_impls_witness:
  "map impl_name (get_impls kern_demo {''generic'', ''sse''}) = [''generic'', ''u_sse''] \<and>
   map impl_name (get_impls kern_demo {}) = [''generic'']"
  using C2_get_impls [of kern_demo "{''generic'', ''sse''}"] C2_get_impls [of kern_demo "{}"]
  by (simp add: kern_demo_def)

section \<open>Properties of the machine catalog\<close>

lemma split_loop_free: "d \<notin> set q \<Longrightarrow> split_loop q d cur = [cur @ q]"
  by (induction q arbitrary: cur) auto

lemma split_loop_append:
  "d \<notin> set p \<Longrightarrow> split_loop (p @ xs) d cur = split_loop xs d (cur @ p)"
  by (induction p arbitrary: cur) auto

lemma split_two:
  "d \<notin> set p \<Longrightarrow> d \<notin> set q \<Longrightarrow> split (p @ d # q) d = [p, q]"
  by (simp add: split_def split_loop_append split_loop_free)

lemma max_align_loop_Max:
  "max_align_loop archs m = (if archs = [] then m else max m (Max (arch_alignment ` set archs)))"
proof (induction archs arbitrary: m)
  case Nil then show ?case by simp
next
  case (Cons a as)
  show ?case
  proof (cases "as = []")
    case True then show ?thesis by simp
  next
    case False
    then show ?thesis using Cons.IH [of "max m (arch_alignment a)"] by (simp add: max.assoc)
  qed
qed

lemma register_machine_plain:
  "first_bar archs = None \<Longrightarrow>
   register_machine dict name archs ms =
     (case resolve_archs dict archs ([], []) of
        None \<Rightarrow> ms
      | Some (names, resolved) \<Rightarrow>
          if resolved = [] then ms
          else ms @ [\<lparr> machine_name = name, machine_arch_names = names, machine_archs = resolved,
                          machine_alignment = max_align_loop resolved 1 \<rparr>])"
  by (subst register_machine.simps) simp

lemma register_machine_alt:
  "first_bar archs = Some (pre, e, post) \<Longrightarrow>
   register_machine dict name archs ms =
     fold (\<lambda>part ms.
             if part \<noteq> [] then register_machine dict (name @ ''_'' @ part) (pre @ [part] @ post) ms
             else register_machine dict name (pre @ post) ms)
          (split e (CHR ''|'')) ms"
  by (subst register_machine.simps) simp

lemma split_trailing: "d \<notin> set p \<Longrightarrow> split (p @ [d]) d = [p, []]"
  by (simp add: split_def split_loop_append)

lemma fold_invariant:
  assumes "\<And>x s. x \<in> set xs \<Longrightarrow> I s \<Longrightarrow> I (f x s)" and "I s"
  shows "I (fold f xs s)"
  using assms by (induction xs arbitrary: s) auto

lemma resolve_archs_known:
  "resolve_archs dict as acc = Some (names, resolved) \<Longrightarrow>
     \<forall>a \<in> set as. a = [] \<or> a \<in> fst ` set dict"
proof (induction dict as acc rule: resolve_archs.induct)
  case (1 dict acc)
  then show ?case by simp
next
  case (2 dict a rest ns rs)
  show ?case
  proof (cases "a = []")
    case True
    with 2 show ?thesis by simp
  next
    case False
    with "2.prems" obtain A where A: "map_find dict a = Some A"
      by (cases "map_find dict a") auto
    then have "a \<in> fst ` set dict"
      using map_find_None [of dict a] by simp
    moreover have "\<forall>a \<in> set rest. a = [] \<or> a \<in> fst ` set dict"
      using "2.IH"(2) [OF False A] "2.prems" False A by simp
    ultimately show ?thesis by simp
  qed
qed

lemma resolve_archs_unknown:
  "a \<in> set as \<Longrightarrow> a \<noteq> [] \<Longrightarrow> a \<notin> fst ` set dict \<Longrightarrow> resolve_archs dict as acc = None"
  using resolve_archs_known [of dict as acc] by (cases "resolve_archs dict as acc") auto

lemma resolve_archs_empty:
  "\<forall>a \<in> set as. a = [] \<Longrightarrow> resolve_archs dict as acc = Some acc"
  by (induction dict as acc rule: resolve_archs.induct) auto

lemma map_find_stored: "map_find kvs k = Some v \<Longrightarrow> (k, v) \<in> set kvs"
  by (induction kvs) (auto split: if_splits)

lemma resolve_archs_stored:
  "resolve_archs dict as acc = Some (names, resolved) \<Longrightarrow>
   set (snd acc) \<subseteq> snd ` set dict \<Longrightarrow> set resolved \<subseteq> snd ` set dict"
proof (induction dict as acc rule: resolve_archs.induct)
  case (1 dict acc)
  then show ?case by auto
next
  case (2 dict a rest ns rs)
  show ?case
  proof (cases "a = []")
    case True
    with 2 show ?thesis by simp
  next
    case False
    with "2.prems" obtain A where A: "map_find dict a = Some A"
      by (cases "map_find dict a") auto
    from map_find_stored [OF A] have "A \<in> snd ` set dict" by force
    with "2.IH"(2) [OF False A] "2.prems" False A show ?thesis by simp
  qed
qed

lemma register_machine_ok:
  "\<forall>M \<in> set ms. machine_ok dict M \<Longrightarrow>
   \<forall>M \<in> set (register_machine dict name archs ms). machine_ok dict M"
proof (induction dict name archs ms rule: register_machine.induct)
  case (1 dict name archs ms)
  show ?case
  proof (cases "first_bar archs")
    case None
    show ?thesis
    proof (cases "resolve_archs dict archs ([], [])")
      case n: None
      with None "1.prems" show ?thesis by (simp add: register_machine_plain)
    next
      case (Some r)
      obtain names resolved where r: "r = (names, resolved)" by (cases r) auto
      from Some r have "set resolved \<subseteq> snd ` set dict"
        using resolve_archs_stored [of dict archs "([], [])" names resolved] by simp
      with None Some r "1.prems" show ?thesis
        by (simp add: register_machine_plain machine_ok_def max_align_loop_Max)
    qed
  next
    case (Some t)
    obtain pre e post where t: "t = (pre, e, post)" by (cases t) auto
    have fb: "first_bar archs = Some (pre, e, post)" using Some t by simp
    show ?thesis
      unfolding register_machine_alt [OF fb]
    proof (rule fold_invariant [where I = "\<lambda>s. \<forall>M \<in> set s. machine_ok dict M"])
      fix part s
      assume p: "part \<in> set (split e (CHR ''|''))" and s: "\<forall>M \<in> set s. machine_ok dict M"
      show "\<forall>M\<in>set (if part \<noteq> [] then register_machine dict (name @ ''_'' @ part) (pre @ [part] @ post) s
                        else register_machine dict name (pre @ post) s). machine_ok dict M"
        using "1.IH"(1) [OF fb refl refl p _ s] "1.IH"(2) [OF fb refl refl p _ s]
        by (cases "part = []") simp_all
    next
      show "\<forall>M \<in> set ms. machine_ok dict M" by (rule "1.prems")
    qed
  qed
qed

lemma parse_machines_ok: "\<forall>M \<in> set (parse_machines dict elems). machine_ok dict M"
  unfolding parse_machines_def
proof (rule fold_invariant [where I = "\<lambda>s. \<forall>M \<in> set s. machine_ok dict M"])
  fix x :: "string \<times> string list" and s :: "Machine list"
  assume s: "\<forall>M \<in> set s. machine_ok dict M"
  obtain name archs where x: "x = (name, archs)" by (cases x) auto
  from register_machine_ok [OF s, of name archs] s
  show "\<forall>M\<in>set ((case x of (name, archs) \<Rightarrow> \<lambda>ms. if name = [] then ms else register_machine dict name archs ms) s). machine_ok dict M"
    unfolding x by simp
next
  show "\<forall>M \<in> set []. machine_ok dict M" by simp
qed

lemma Max_floor:
  fixes S :: "int set"
  assumes "finite S" "S \<noteq> {}" "\<forall>x \<in> S. 0 < x"
  shows "max 1 (Max S) = Max S"
proof -
  from assms(1,2) have "Max S \<in> S" by (rule Max_in)
  with assms(3) have "0 < Max S" by blast
  then show ?thesis by simp
qed

text \<open>
  Below an alignment of 1 the start value of \<^verbatim>\<open>max_align\<close> shows: a machine over
  one architecture of alignment 0 has the alignment 1.
\<close>

lemma max_align_floor:
  "map machine_alignment (parse_machines [(''a'', arch_unaligned)] [(''m'', [''a''])]) = [1]"
proof -
  have n: "first_bar [''a''] = None" by simp
  show ?thesis
    by (simp add: parse_machines_def register_machine_plain [OF n] arch_unaligned_def)
qed

text \<open>
  C3. Registering the base name \<^verbatim>\<open>B\<close> with the entries \<^verbatim>\<open>x\<close>, \<^verbatim>\<open>p|q\<close>,
  \<^verbatim>\<open>y\<close>, where the four names are known architectures, appends exactly the two
  machines \<^verbatim>\<open>B_p\<close> with the architectures x, p, y and \<^verbatim>\<open>B_q\<close> with x, q, y.
  With the entry \<^verbatim>\<open>p|\<close>, whose second alternative is empty, it appends \<^verbatim>\<open>B_p\<close>
  and a machine named \<^verbatim>\<open>B\<close> whose list is x, y: the entry is left out.
\<close>

theorem C3_alternation_expansion:
  assumes known: "map_find dict x = Some X" "map_find dict p = Some P"
      "map_find dict q = Some Q" "map_find dict y = Some Y"
    and plain: "CHR ''|'' \<notin> set x" "CHR ''|'' \<notin> set p" "CHR ''|'' \<notin> set q" "CHR ''|'' \<notin> set y"
    and ne: "x \<noteq> []" "p \<noteq> []" "q \<noteq> []" "y \<noteq> []"
  shows "register_machine dict B [x, p @ ''|'' @ q, y] ms =
           ms @ [\<lparr> machine_name = B @ ''_'' @ p, machine_arch_names = [x, p, y],
                    machine_archs = [X, P, Y],
                    machine_alignment =
                      max (max (max 1 (arch_alignment X)) (arch_alignment P)) (arch_alignment Y) \<rparr>,
                 \<lparr> machine_name = B @ ''_'' @ q, machine_arch_names = [x, q, y],
                    machine_archs = [X, Q, Y],
                    machine_alignment =
                      max (max (max 1 (arch_alignment X)) (arch_alignment Q)) (arch_alignment Y) \<rparr>] \<and>
         register_machine dict B [x, p @ ''|'', y] ms =
           ms @ [\<lparr> machine_name = B @ ''_'' @ p, machine_arch_names = [x, p, y],
                    machine_archs = [X, P, Y],
                    machine_alignment =
                      max (max (max 1 (arch_alignment X)) (arch_alignment P)) (arch_alignment Y) \<rparr>,
                 \<lparr> machine_name = B, machine_arch_names = [x, y],
                    machine_archs = [X, Y],
                    machine_alignment = max (max 1 (arch_alignment X)) (arch_alignment Y) \<rparr>]"
proof -
  have fb: "first_bar [x, p @ CHR ''|'' # q, y] = Some ([x], p @ CHR ''|'' # q, [y])"
    using plain by simp
  have sp: "split (p @ CHR ''|'' # q) (CHR ''|'') = [p, q]"
    using plain by (simp add: split_two)
  have fb': "first_bar [x, p @ [CHR ''|''], y] = Some ([x], p @ [CHR ''|''], [y])"
    using plain by simp
  have sp': "split (p @ [CHR ''|'']) (CHR ''|'') = [p, []]"
    using plain by (simp add: split_trailing)
  have n1: "first_bar [x, p, y] = None" using plain by simp
  have n2: "first_bar [x, q, y] = None" using plain by simp
  have n3: "first_bar [x, y] = None" using plain by simp
  have "register_machine dict B [x, p @ CHR ''|'' # q, y] ms =
          register_machine dict (B @ ''_'' @ q) [x, q, y]
            (register_machine dict (B @ ''_'' @ p) [x, p, y] ms)"
    by (simp add: register_machine_alt [OF fb] sp ne)
  moreover have "register_machine dict B [x, p @ [CHR ''|''], y] ms =
          register_machine dict B [x, y] (register_machine dict (B @ ''_'' @ p) [x, p, y] ms)"
    by (simp add: register_machine_alt [OF fb'] sp' ne)
  ultimately show ?thesis
    by (simp add: register_machine_plain [OF n1] register_machine_plain [OF n2]
        register_machine_plain [OF n3] known ne)
qed

theorem C3_alternation_expansion_witness:
  "map machine_name (register_machine dict_demo ''m'' [''generic'', ''sse|avx'', ''orc''] []) =
     [''m_sse'', ''m_avx''] \<and>
   map machine_arch_names (register_machine dict_demo ''m'' [''generic'', ''sse|avx'', ''orc''] []) =
     [[''generic'', ''sse'', ''orc''], [''generic'', ''avx'', ''orc'']] \<and>
   map machine_name (register_machine dict_demo ''m'' [''generic'', ''sse|'', ''orc''] []) =
     [''m_sse'', ''m''] \<and>
   map machine_arch_names (register_machine dict_demo ''m'' [''generic'', ''sse|'', ''orc''] []) =
     [[''generic'', ''sse'', ''orc''], [''generic'', ''orc'']]"
  using C3_alternation_expansion [of dict_demo "''generic''" arch_generic "''sse''" arch_sse
      "''avx''" arch_avx "''orc''" arch_orc "''m''" "[]"]
  by (simp add: dict_demo_def)

text \<open>
  C4. Let every architecture of the dictionary have a positive alignment, as the
  data model has it. Then every machine of the catalog built by
  \<^verbatim>\<open>parse_machines\<close> has at least one architecture, its architectures are
  architectures of the dictionary, and its alignment is the maximum of their
  alignments. A list without alternatives that names an unknown architecture, or whose
  entries are all empty, leaves the catalog as it was; no error value exists in
  \<^verbatim>\<open>register_machine\<close>.
\<close>

theorem C4_machine_alignment:
  "((\<forall>A \<in> snd ` set dict. 0 < arch_alignment A) \<longrightarrow>
      (\<forall>M \<in> set (parse_machines dict elems).
         machine_archs M \<noteq> [] \<and> set (machine_archs M) \<subseteq> snd ` set dict \<and>
         machine_alignment M = Max (arch_alignment ` set (machine_archs M)))) \<and>
   (first_bar archs = None \<and> (\<exists>a \<in> set archs. a \<noteq> [] \<and> a \<notin> fst ` set dict) \<longrightarrow>
      register_machine dict name archs ms = ms) \<and>
   (first_bar archs = None \<and> (\<forall>a \<in> set archs. a = []) \<longrightarrow>
      register_machine dict name archs ms = ms)"
proof (intro conjI impI ballI)
  fix M
  assume pos: "\<forall>A \<in> snd ` set dict. 0 < arch_alignment A"
    and M: "M \<in> set (parse_machines dict elems)"
  from parse_machines_ok [of dict elems] M have ok: "machine_ok dict M" by blast
  then show "machine_archs M \<noteq> []" by (simp add: machine_ok_def)
  from ok show sub: "set (machine_archs M) \<subseteq> snd ` set dict" by (simp add: machine_ok_def)
  from ok have ne: "arch_alignment ` set (machine_archs M) \<noteq> {}" by (simp add: machine_ok_def)
  from sub pos have "\<forall>x \<in> arch_alignment ` set (machine_archs M). 0 < x" by blast
  with ne have "max 1 (Max (arch_alignment ` set (machine_archs M))) =
      Max (arch_alignment ` set (machine_archs M))"
    by (intro Max_floor) simp_all
  with ok show "machine_alignment M = Max (arch_alignment ` set (machine_archs M))"
    by (simp add: machine_ok_def)
next
  assume a: "first_bar archs = None \<and> (\<exists>a \<in> set archs. a \<noteq> [] \<and> a \<notin> fst ` set dict)"
  then obtain a where "a \<in> set archs" "a \<noteq> []" "a \<notin> fst ` set dict" by blast
  then have "resolve_archs dict archs ([], []) = None"
    by (rule resolve_archs_unknown)
  with a show "register_machine dict name archs ms = ms"
    by (simp add: register_machine_plain)
next
  assume a: "first_bar archs = None \<and> (\<forall>a \<in> set archs. a = [])"
  then have "resolve_archs dict archs ([], []) = Some ([], [])"
    by (simp add: resolve_archs_empty)
  with a show "register_machine dict name archs ms = ms"
    by (simp add: register_machine_plain)
qed

theorem C4_machine_alignment_witness:
  "map machine_alignment (parse_machines dict_demo [(''m'', [''generic'', ''sse|avx''])]) = [16, 32] \<and>
   Max (arch_alignment ` set [arch_generic, arch_sse]) = 16 \<and>
   Max (arch_alignment ` set [arch_generic, arch_avx]) = 32 \<and>
   register_machine dict_demo ''bad'' [''generic'', ''neon''] [] = [] \<and>
   register_machine dict_demo ''none'' [] [] = []"
proof -
  have fb: "first_bar [''generic'', ''sse|avx''] = Some ([''generic''], ''sse|avx'', [])"
    by simp
  have sp: "split ''sse|avx'' (CHR ''|'') = [''sse'', ''avx'']"
    by (simp add: split_def)
  have n1: "first_bar [''generic'', ''sse''] = None" by simp
  have n2: "first_bar [''generic'', ''avx''] = None" by simp
  have pos: "\<forall>A \<in> snd ` set dict_demo. 0 < arch_alignment A"
    by (simp add: dict_demo_def arch_generic_def arch_sse_def arch_avx_def arch_orc_def)
  have pm: "map machine_archs (parse_machines dict_demo [(''m'', [''generic'', ''sse|avx''])]) =
      [[arch_generic, arch_sse], [arch_generic, arch_avx]]"
    by (simp add: parse_machines_def register_machine_alt [OF fb] sp
        register_machine_plain [OF n1] register_machine_plain [OF n2] dict_demo_def)
  have b1: "first_bar [''generic'', ''neon''] = None \<and>
      (\<exists>a \<in> set [''generic'', ''neon'']. a \<noteq> [] \<and> a \<notin> fst ` set dict_demo)"
    by (simp add: dict_demo_def)
  have b2: "first_bar [] = None \<and> (\<forall>a \<in> set ([] :: string list). a = [])"
    by simp
  have al: "Max (arch_alignment ` set [arch_generic, arch_sse]) = 16"
    "Max (arch_alignment ` set [arch_generic, arch_avx]) = 32"
    by (simp_all add: arch_generic_def arch_sse_def arch_avx_def)
  from C4_machine_alignment [of dict_demo "[(''m'', [''generic'', ''sse|avx''])]"
      "[''generic'', ''neon'']" "''bad''" "[]"] pos
  have "\<forall>M \<in> set (parse_machines dict_demo [(''m'', [''generic'', ''sse|avx''])]).
      machine_alignment M = Max (arch_alignment ` set (machine_archs M))"
    by blast
  then have "map machine_alignment (parse_machines dict_demo [(''m'', [''generic'', ''sse|avx''])]) =
      map (\<lambda>A. Max (arch_alignment ` set A))
        (map machine_archs (parse_machines dict_demo [(''m'', [''generic'', ''sse|avx''])]))"
    by simp
  then have ma: "map machine_alignment (parse_machines dict_demo [(''m'', [''generic'', ''sse|avx''])]) =
      [16, 32]"
    unfolding pm using al by simp
  from C4_machine_alignment [of dict_demo "[(''m'', [''generic'', ''sse|avx''])]"
      "[''generic'', ''neon'']" "''bad''" "[]"] b1
  have r1: "register_machine dict_demo ''bad'' [''generic'', ''neon''] [] = []"
    by blast
  from C4_machine_alignment [of dict_demo "[]" "[]" "''none''" "[]"] b2
  have r2: "register_machine dict_demo ''none'' [] [] = []"
    by blast
  from ma al r1 r2 show ?thesis by simp
qed

section \<open>Properties of the kernel catalog\<close>

lemma has_generic_iff: "has_generic impls \<longleftrightarrow> (\<exists>i \<in> set impls. impl_name i = ''generic'')"
  by (induction impls) auto

lemma erase_dispatcher_keeps:
  "erase_dispatcher impls = (found, rest) \<Longrightarrow> i \<in> set impls \<Longrightarrow> impl_name i \<noteq> ''dispatcher'' \<Longrightarrow>
   i \<in> set rest"
  by (induction impls arbitrary: found rest) (auto split: if_splits prod.splits)

lemma parse_kernel_file_generic:
  assumes "\<forall>K \<in> set (fst st). kernel_has_generic K"
  shows "\<forall>K \<in> set (fst (parse_kernel_file hdr st)). kernel_has_generic K"
proof -
  obtain name parsed where f: "hdr = (name, parsed)" by (cases hdr) auto
  obtain ks cerr where s: "st = (ks, cerr)" by (cases st) auto
  let ?impls = "filter (\<lambda>impl. impl_name impl \<noteq> []) parsed"
  show ?thesis
  proof (cases "?impls \<noteq> [] \<and> has_generic ?impls")
    case False
    with assms show ?thesis by (auto simp: parse_kernel_file_def f s Let_def)
  next
    case True
    obtain found rest where e: "erase_dispatcher ?impls = (found, rest)"
      by (cases "erase_dispatcher ?impls") auto
    from True obtain i where i: "i \<in> set ?impls" "impl_name i = ''generic''"
      by (auto simp: has_generic_iff)
    then have "i \<in> set rest" using erase_dispatcher_keeps [OF e, of i] by simp
    with i have "\<exists>i \<in> set rest. impl_name i = ''generic''" by blast
    with assms True e show ?thesis
      by (auto simp: parse_kernel_file_def f s Let_def kernel_has_generic_def)
  qed
qed

lemma parse_kernels_generic: "\<forall>K \<in> set (fst (parse_kernels files)). kernel_has_generic K"
  unfolding parse_kernels_def
  by (rule fold_invariant [where I = "\<lambda>st. \<forall>K \<in> set (fst st). kernel_has_generic K"])
     (simp_all add: parse_kernel_file_generic)

text \<open>
  C5. Every kernel of the catalog built by \<^verbatim>\<open>parse_kernels\<close> has an
  implementation named \<^verbatim>\<open>generic\<close>. A header whose parsed implementations include
  no \<^verbatim>\<open>generic\<close> adds no kernel; it adds the warning to the diagnostics when it has
  at least one implementation with a name, and nothing when it has none.
\<close>

theorem C5_generic_required:
  "(\<forall>K \<in> set (fst (parse_kernels files)). \<exists>i \<in> set (kern_impls K). impl_name i = ''generic'') \<and>
   (\<not> (\<exists>i \<in> set parsed. impl_name i = ''generic'') \<longrightarrow>
      parse_kernel_file (name, parsed) (ks, cerr) =
        (ks,
         if \<exists>i \<in> set parsed. impl_name i \<noteq> []
         then cerr @ [''Warning: '' @ name @ '' does not have a generic protokernel, skipping.'']
         else cerr))"
proof (intro conjI impI)
  show "\<forall>K \<in> set (fst (parse_kernels files)). \<exists>i \<in> set (kern_impls K). impl_name i = ''generic''"
    using parse_kernels_generic [of files] by (simp add: kernel_has_generic_def)
next
  assume "\<not> (\<exists>i \<in> set parsed. impl_name i = ''generic'')"
  then have "\<not> has_generic (filter (\<lambda>impl. impl_name impl \<noteq> []) parsed)"
    by (auto simp: has_generic_iff)
  then show "parse_kernel_file (name, parsed) (ks, cerr) =
        (ks,
         if \<exists>i \<in> set parsed. impl_name i \<noteq> []
         then cerr @ [''Warning: '' @ name @ '' does not have a generic protokernel, skipping.'']
         else cerr)"
    by (auto simp: parse_kernel_file_def Let_def filter_empty_conv)
qed

theorem C5_generic_required_witness:
  "map kern_name (fst (parse_kernels
      [(''volk_a'', [impl_a_sse, impl_dispatcher, impl_generic]), (''volk_b'', [impl_a_sse])])) =
     [''volk_a''] \<and>
   map kern_impls (fst (parse_kernels
      [(''volk_a'', [impl_a_sse, impl_dispatcher, impl_generic]), (''volk_b'', [impl_a_sse])])) =
     [[impl_a_sse, impl_generic]] \<and>
   parse_kernel_file (''volk_b'', [impl_a_sse]) ([], []) =
     ([], [''Warning: volk_b does not have a generic protokernel, skipping.''])"
proof -
  have n: "\<not> (\<exists>i \<in> set [impl_a_sse]. impl_name i = ''generic'')"
    by (simp add: impl_a_sse_def)
  from C5_generic_required [of "[]" "[impl_a_sse]" "''volk_b''" "[]" "[]"] n
  have "parse_kernel_file (''volk_b'', [impl_a_sse]) ([], []) =
     ([], if \<exists>i \<in> set [impl_a_sse]. impl_name i \<noteq> []
          then [] @ [''Warning: '' @ ''volk_b'' @ '' does not have a generic protokernel, skipping.'']
          else [])"
    by blast
  then show ?thesis
    by (simp add: parse_kernels_def parse_kernel_file_def impl_a_sse_def impl_generic_def
        impl_dispatcher_def)
qed

theorem C5_generic_required_counterexample:
  "\<not> (\<exists>i \<in> set ([] :: Impl list). impl_name i = ''generic'') \<and>
   parse_kernels [(''volk_empty'', [])] = ([], [])"
  by (simp add: parse_kernels_def parse_kernel_file_def)

section \<open>Properties of comment removal\<close>

lemma scan_close:
  "q \<noteq> CHR 0x5C \<Longrightarrow> scan (InString q) (q # rest) = q # scan Code rest"
  by (cases rest) simp_all

lemma scan_literal:
  "literal_body q body \<Longrightarrow> q \<noteq> CHR 0x5C \<Longrightarrow>
   scan (InString q) (body @ q # rest) = body @ q # scan Code rest"
  by (induction q body rule: literal_body.induct) (auto simp: scan_close)

lemma scan_append:
  "mode_after mode pre = Code \<Longrightarrow> xs = [] \<or> (hd xs \<noteq> CHR ''/'' \<and> hd xs \<noteq> CHR ''*'') \<Longrightarrow>
   scan mode (pre @ xs) = scan mode pre @ scan Code xs"
proof (induction mode pre rule: scan.induct)
  case (3 c)
  then show ?case by simp
next
  case (5 string_char c)
  then show ?case by (cases xs) (auto split: if_splits)
next
  case (7 c)
  then show ?case by (cases xs) (auto split: if_splits)
qed (auto split: if_splits)

lemma scan_line_comment:
  "CHR 0x0A \<notin> set cmt \<Longrightarrow> scan LineComment (cmt @ CHR 0x0A # rest) = CHR 0x0A # scan Code rest"
  by (induction cmt) auto

lemma scan_block_comment:
  "no_block_end cmt \<Longrightarrow> scan BlockComment (cmt @ CHR ''*'' # CHR ''/'' # rest) = scan Code rest"
  by (induction cmt rule: no_block_end.induct) auto

lemma scan_append_after:
  "mode_after mode pre = Code \<Longrightarrow> pre = [] \<or> last pre \<noteq> CHR ''/'' \<Longrightarrow>
   scan mode (pre @ xs) = scan mode pre @ scan Code xs"
proof (induction mode pre rule: scan.induct)
  case (3 c)
  then show ?case by simp
next
  case (5 string_char c)
  then show ?case by (cases xs) (auto split: if_splits)
next
  case (7 c)
  then show ?case by (cases xs) (auto split: if_splits)
qed (auto split: if_splits)

text \<open>
  C8. Let \<^verbatim>\<open>pre\<close> be any text after which the scanner is outside comments and
  literals. A literal that follows (a quote, contents that may hold escapes, comment
  openers and anything but the unescaped quote, and the closing quote) is copied
  unchanged, and the scan goes on after it. A line comment that follows is deleted up
  to its newline, which is kept, and a block comment is deleted with its delimiters
  (for these two, \<^verbatim>\<open>pre\<close> does not end with a slash, which would pair with the
  opener).
\<close>

theorem C8_remove_comments:
  assumes "mode_after Code pre = Code"
  shows "(q \<in> {CHR 0x22, CHR 0x27} \<and> literal_body q body \<longrightarrow>
            remove_comments (pre @ q # body @ q # rest) =
              remove_comments pre @ q # body @ q # remove_comments rest) \<and>
         ((pre = [] \<or> last pre \<noteq> CHR ''/'') \<and> CHR 0x0A \<notin> set cmt \<longrightarrow>
            remove_comments (pre @ ''//'' @ cmt @ CHR 0x0A # rest) =
              remove_comments pre @ CHR 0x0A # remove_comments rest) \<and>
         ((pre = [] \<or> last pre \<noteq> CHR ''/'') \<and> no_block_end cmt \<longrightarrow>
            remove_comments (pre @ ''/*'' @ cmt @ ''*/'' @ rest) =
              remove_comments pre @ remove_comments rest)"
proof (intro conjI impI)
  assume a: "q \<in> {CHR 0x22, CHR 0x27} \<and> literal_body q body"
  then have q: "q \<noteq> CHR 0x5C" by auto
  have "scan Code (q # body @ q # rest) = q # scan (InString q) (body @ q # rest)"
    using a by (cases "body @ q # rest") auto
  also have "\<dots> = q # body @ q # scan Code rest"
    using a q by (simp add: scan_literal)
  finally have lit: "scan Code (q # body @ q # rest) = q # body @ q # scan Code rest" .
  have "scan Code (pre @ q # body @ q # rest) = scan Code pre @ scan Code (q # body @ q # rest)"
    using assms a by (intro scan_append) auto
  with lit show "remove_comments (pre @ q # body @ q # rest) =
      remove_comments pre @ q # body @ q # remove_comments rest"
    by (simp add: remove_comments_def)
next
  assume a: "(pre = [] \<or> last pre \<noteq> CHR ''/'') \<and> CHR 0x0A \<notin> set cmt"
  have "scan Code (''//'' @ cmt @ CHR 0x0A # rest) = CHR 0x0A # scan Code rest"
    using a by (simp add: scan_line_comment)
  moreover have "scan Code (pre @ ''//'' @ cmt @ CHR 0x0A # rest) =
      scan Code pre @ scan Code (''//'' @ cmt @ CHR 0x0A # rest)"
    using assms a by (intro scan_append_after) auto
  ultimately show "remove_comments (pre @ ''//'' @ cmt @ CHR 0x0A # rest) =
      remove_comments pre @ CHR 0x0A # remove_comments rest"
    by (simp add: remove_comments_def)
next
  assume a: "(pre = [] \<or> last pre \<noteq> CHR ''/'') \<and> no_block_end cmt"
  have "scan Code (''/*'' @ cmt @ ''*/'' @ rest) = scan Code rest"
    using a by (simp add: scan_block_comment)
  moreover have "scan Code (pre @ ''/*'' @ cmt @ ''*/'' @ rest) =
      scan Code pre @ scan Code (''/*'' @ cmt @ ''*/'' @ rest)"
    using assms a by (intro scan_append_after) auto
  ultimately show "remove_comments (pre @ ''/*'' @ cmt @ ''*/'' @ rest) =
      remove_comments pre @ remove_comments rest"
    by (simp add: remove_comments_def)
qed

theorem C8_remove_comments_witness:
  "remove_comments (''s = '' @ [CHR 0x22] @ ''a//b/*c'' @ [CHR 0x5C, CHR 0x22] @ ''d'' @ [CHR 0x22] @ ''; // tail'') =
     ''s = '' @ [CHR 0x22] @ ''a//b/*c'' @ [CHR 0x5C, CHR 0x22] @ ''d'' @ [CHR 0x22] @ ''; '' \<and>
   remove_comments (''x = 1; // one'' @ [CHR 0x0A] @ ''y'') = ''x = 1; '' @ [CHR 0x0A] @ ''y'' \<and>
   remove_comments ''x /* a * b / c */ y'' = ''x  y''"
proof -
  have m1: "mode_after Code ''s = '' = Code" by simp
  have m2: "mode_after Code ''x = 1; '' = Code" by simp
  have m3: "mode_after Code ''x '' = Code" by simp
  have l: "literal_body (CHR 0x22) (''a//b/*c'' @ [CHR 0x5C, CHR 0x22] @ ''d'')" by simp
  have b: "no_block_end '' a * b / c ''" by simp
  from C8_remove_comments [OF m1, of "CHR 0x22" "''a//b/*c'' @ [CHR 0x5C, CHR 0x22] @ ''d''" "''; // tail''"] l
  have 1: "remove_comments (''s = '' @ CHR 0x22 # (''a//b/*c'' @ [CHR 0x5C, CHR 0x22] @ ''d'') @ CHR 0x22 # ''; // tail'') =
     remove_comments ''s = '' @ CHR 0x22 # (''a//b/*c'' @ [CHR 0x5C, CHR 0x22] @ ''d'') @ CHR 0x22 # remove_comments ''; // tail''"
    by blast
  from C8_remove_comments [OF m2, of _ _ "''y''" "'' one''"]
  have 2: "remove_comments (''x = 1; '' @ ''//'' @ '' one'' @ CHR 0x0A # ''y'') =
     remove_comments ''x = 1; '' @ CHR 0x0A # remove_comments ''y''"
    by simp
  from C8_remove_comments [OF m3, of _ _ "'' y''" "'' a * b / c ''"] b
  have 3: "remove_comments (''x '' @ ''/*'' @ '' a * b / c '' @ ''*/'' @ '' y'') =
     remove_comments ''x '' @ remove_comments '' y''"
    by simp
  from 1 2 3 show ?thesis
    by (simp add: remove_comments_def)
qed

section \<open>Properties of the template engine\<close>

subsection \<open>The template with FIRST and OTHER\<close>

lemmas class_defs = is_space_def is_digit_def is_word_def is_path_def is_dot_def is_trim_def

lemmas regex_defs = skip_spaces_def spaces1_def span1_def directive_def spaced_word_def
  spaced_in_def ends_colon_def for_re_def comma_word_def for_enum_re_def for_tuple_re_def
  endfor_re_def endif_re_def else_re_def condition_tail_def if_re_def elif_re_def
  code_block_here_def var_here_def slice_eq_re_def quoted_def star_re_def str_in_re_def in_re_def
  opens_block_def open_loop_def is_for_def trim_def split_def

lemma cond_i_eq_0: "evaluate_condition eng ''i == 0'' = Inr False"
  by (subst evaluate_condition.simps) (simp add: simple_condition_def regex_defs class_defs)

lemma lines_body: "getlines tmpl_body = [''%if i == 0:'', ''FIRST'', ''%else:'', ''OTHER'', ''%endif'']"
  by (simp add: tmpl_body_def getlines_def)

lemmas line_defs = process_line_def process_loop_line_def process_conditional_def
  substitute_line_def substitute_vars_def start_state_def

lemma strip_prefix_append: "strip_prefix p (p @ x) = Some x"
  by (induction p) auto

lemma strip_banner_banner: "strip_banner (banner @ x) = x"
  by (simp add: strip_banner_def strip_prefix_append)

lemma code_blocks_loop_none:
  "code_block_re processed = None \<Longrightarrow>
   code_blocks_loop cat args n eng processed = (processed, eng)"
  by (cases n) simp_all

lemma vars_loop_none: "var_re processed = None \<Longrightarrow> vars_loop n eng processed = processed"
  by (cases n) simp_all

lemma plain_FIRST: "code_block_re ''FIRST'' = None" "var_re ''FIRST'' = None"
  by (simp_all add: regex_defs)

lemma plain_OTHER: "code_block_re ''OTHER'' = None" "var_re ''OTHER'' = None"
  by (simp_all add: regex_defs)

lemma render_body:
  "render cat d eng tmpl_body args = Inr (banner @ other_line, eng)"
  by (subst render.simps)
     (simp add: lines_body line_defs cond_i_eq_0 regex_defs class_defs other_line_def
        code_blocks_loop_none vars_loop_none plain_FIRST plain_OTHER)

lemma sub_engine_copy_back: "copy_back e (sub_engine e) = e\<lparr>current_impls := []\<rparr>"
  by (simp add: copy_back_def sub_engine_def)

lemma loop_over_machines:
  assumes rb: "\<And>e. rb e = Inr (other_line, e\<lparr>current_impls := []\<rparr>)"
  shows "loop_over rb (\<lambda>i m e. e\<lparr>current_machine := Some m\<rparr>) i ms out eng =
         Inr (out @ concat (replicate (length ms) other_line),
              if ms = [] then eng
              else eng\<lparr>current_machine := Some (last ms), current_impls := []\<rparr>)"
proof (induction ms arbitrary: i out eng)
  case Nil
  then show ?case by simp
next
  case (Cons m ms)
  have "loop_over rb (\<lambda>i m e. e\<lparr>current_machine := Some m\<rparr>) i (m # ms) out eng =
        loop_over rb (\<lambda>i m e. e\<lparr>current_machine := Some m\<rparr>) (Suc i) ms (out @ other_line)
          (eng\<lparr>current_machine := Some m, current_impls := []\<rparr>)"
    by (simp add: rb)
  also have "\<dots> = Inr ((out @ other_line) @ concat (replicate (length ms) other_line),
              if ms = [] then eng\<lparr>current_machine := Some m, current_impls := []\<rparr>
              else eng\<lparr>current_machine := Some m, current_impls := []\<rparr>
                     \<lparr>current_machine := Some (last ms), current_impls := []\<rparr>)"
    by (rule Cons.IH)
  finally show ?case by simp
qed

lemma lines_first_other:
  "getlines tmpl_first_other =
     [''%for i, m in enumerate(machines):'', ''%if i == 0:'', ''FIRST'', ''%else:'', ''OTHER'',
      ''%endif'', ''%endfor'']"
  by (simp add: tmpl_first_other_def tmpl_body_def getlines_def)

lemma render_first_other:
  "render cat 0 eng tmpl_first_other args =
     Inr (banner @ concat (replicate (length (g_machines cat)) other_line),
          if g_machines cat = [] then eng\<lparr>current_machine := None\<rparr>
          else eng\<lparr>current_machine := None, current_impls := []\<rparr>)"
proof -
  have body: "''%if i == 0:'' @ [CHR 0x0A] @ ''FIRST'' @ [CHR 0x0A] @ ''%else:'' @ [CHR 0x0A] @
               ''OTHER'' @ [CHR 0x0A] @ ''%endif'' @ [CHR 0x0A] = tmpl_body"
    by (simp add: tmpl_body_def)
  have rb: "\<And>e. (if max_render_depth \<le> 0 then Inr ([], e)
              else (case render cat (Suc 0) (sub_engine e) tmpl_body args of
                      Inl err \<Rightarrow> Inl err
                    | Inr (result, sub) \<Rightarrow> Inr (strip_banner result, copy_back e sub)))
            = Inr (other_line, e\<lparr>current_impls := []\<rparr>)"
    by (simp add: max_render_depth_def render_body strip_banner_banner sub_engine_copy_back)
  show ?thesis
    apply (subst render.simps)
    apply (simp add: lines_first_other line_defs regex_defs class_defs execute_loop_def after_loop_def)
    apply (simp only: body [simplified] rb loop_over_machines)
    apply (simp add: loop_over_machines [OF rb [simplified]])
    done
qed

lemma split_loop_line:
  "d \<notin> set p \<Longrightarrow> split_loop (p @ d # rest) d cur = (cur @ p) # split_loop rest d []"
  by (simp add: split_loop_append)

lemma split_others:
  "split_loop (concat (replicate n other_line)) (CHR 0x0A) [] = replicate n ''OTHER'' @ [[]]"
proof (induction n)
  case 0
  then show ?case by simp
next
  case (Suc n)
  have "split_loop (''OTHER'' @ CHR 0x0A # concat (replicate n other_line)) (CHR 0x0A) [] =
        ([] @ ''OTHER'') # split_loop (concat (replicate n other_line)) (CHR 0x0A) []"
    by (rule split_loop_line) simp
  with Suc show ?case by (simp add: other_line_def)
qed

lemma output_lines_others:
  "output_lines (banner @ concat (replicate n other_line)) =
     [[], ''/* this file was generated by volk template utils, do not edit! */'', []] @
     replicate n ''OTHER'' @ [[]]"
proof -
  let ?t = "''/* this file was generated by volk template utils, do not edit! */''"
  let ?r = "concat (replicate n other_line)"
  have 1: "split_loop ([] @ CHR 0x0A # ?t @ CHR 0x0A # CHR 0x0A # ?r) (CHR 0x0A) [] =
        ([] @ []) # split_loop (?t @ CHR 0x0A # CHR 0x0A # ?r) (CHR 0x0A) []"
    by (rule split_loop_line) simp
  have 2: "split_loop (?t @ CHR 0x0A # CHR 0x0A # ?r) (CHR 0x0A) [] =
        ([] @ ?t) # split_loop (CHR 0x0A # ?r) (CHR 0x0A) []"
    by (rule split_loop_line) simp
  have "banner @ ?r = [] @ CHR 0x0A # ?t @ CHR 0x0A # CHR 0x0A # ?r"
    by (simp add: banner_def)
  then have "output_lines (banner @ ?r) =
      split_loop ([] @ CHR 0x0A # ?t @ CHR 0x0A # CHR 0x0A # ?r) (CHR 0x0A) []"
    by (simp only: output_lines_def split_def)
  also have "\<dots> = [] # ?t # [] # split_loop ?r (CHR 0x0A) []"
    unfolding 1 2 by simp
  finally show ?thesis by (simp add: split_others)
qed

lemma count_list_replicate: "count_list (replicate n x) y = (if x = y then n else 0)"
  by (induction n) auto

lemma count_sub_absent:
  "c \<in> set pat \<Longrightarrow> c \<notin> set s \<Longrightarrow> count_sub pat s = 0"
proof (induction s)
  case Nil
  then show ?case by auto
next
  case (Cons x xs)
  have "strip_prefix pat (x # xs) = None"
  proof (cases "strip_prefix pat (x # xs)")
    case (Some r)
    then have "x # xs = pat @ r" by (rule strip_prefix_Some)
    with Cons.prems show ?thesis by (metis Un_iff set_append)
  qed simp
  with Cons show ?case by simp
qed

lemma slash_others: "CHR ''/'' \<notin> set (concat (replicate n other_line))"
  by (induction n) (auto simp: other_line_def)

lemma strip_prefix_slash:
  "CHR ''/'' \<notin> set t \<Longrightarrow> strip_prefix (CHR ''/'' # p) t = None"
  by (cases t) auto

lemma count_sub_banner:
  assumes "CHR ''/'' \<notin> set t"
  shows "count_sub banner (banner @ t) = 1"
proof -
  have z: "count_sub banner t = 0"
    by (rule count_sub_absent [where c = "CHR ''/''"]) (simp_all add: banner_def assms)
  show ?thesis
    using z assms by (simp add: banner_def strip_prefix_append strip_prefix_slash)
qed

text \<open>
  C1. For every catalog and every engine, the template renders to the
  banner followed by one \<^verbatim>\<open>OTHER\<close> line for each machine of the catalog: no line is
  \<^verbatim>\<open>FIRST\<close>, because \<^verbatim>\<open>i == 0\<close> has none of the forms \<^verbatim>\<open>evaluate_condition\<close>
  knows and is false, so the \<^verbatim>\<open>else\<close> branch is taken for every machine. The banner
  occurs once in the output.
\<close>

theorem C1_first_other:
  "(\<exists>eng'. render cat 0 eng tmpl_first_other args = Inr (first_other_output cat, eng')) \<and>
   count_list (output_lines (first_other_output cat)) ''FIRST'' = 0 \<and>
   count_list (output_lines (first_other_output cat)) ''OTHER'' = length (g_machines cat) \<and>
   count_sub banner (first_other_output cat) = 1"
proof (intro conjI)
  show "\<exists>eng'. render cat 0 eng tmpl_first_other args = Inr (first_other_output cat, eng')"
    by (simp add: render_first_other first_other_output_def)
  show "count_list (output_lines (first_other_output cat)) ''FIRST'' = 0"
    by (simp add: first_other_output_def output_lines_others count_list_replicate)
  show "count_list (output_lines (first_other_output cat)) ''OTHER'' = length (g_machines cat)"
    by (simp add: first_other_output_def output_lines_others count_list_replicate)
  show "count_sub banner (first_other_output cat) = 1"
    unfolding first_other_output_def by (rule count_sub_banner) (rule slash_others)
qed

theorem C1_first_other_witness:
  "(\<exists>eng'. render cat_demo 0 new_engine tmpl_first_other [] =
      Inr (banner @ ''OTHER'' @ [CHR 0x0A] @ ''OTHER'' @ [CHR 0x0A], eng')) \<and>
   count_list (output_lines (first_other_output cat_demo)) ''OTHER'' = 2"
  using C1_first_other [of cat_demo new_engine "[]"]
  by (simp add: first_other_output_def cat_demo_def other_line_def)

theorem C1_first_other_counterexample:
  "render cat_one 0 new_engine tmpl_first_other [] = Inr (banner @ other_line, new_engine) \<and>
   count_list (output_lines (banner @ other_line)) ''FIRST'' = 0 \<and>
   count_list (output_lines (banner @ other_line)) ''OTHER'' = 1"
proof -
  have "render cat_one 0 new_engine tmpl_first_other [] = Inr (banner @ other_line, new_engine)"
    by (simp add: render_first_other cat_one_def new_engine_def)
  moreover have "output_lines (banner @ other_line) =
      [[], ''/* this file was generated by volk template utils, do not edit! */'', []] @
      replicate 1 ''OTHER'' @ [[]]"
    using output_lines_others [of 1] by simp
  ultimately show ?thesis by simp
qed

subsection \<open>Unresolved variables\<close>

lemma evaluate_unresolved:
  assumes "trim e \<notin> set (resolvable eng)"
  shows "evaluate_expression eng e = []"
proof -
  from assms have v: "map_find (vars eng) (trim e) = None"
    by (simp add: resolvable_def map_find_None)
  from assms have k: "(case current_kernel eng of None \<Rightarrow> None | Some K \<Rightarrow> kernel_field K (trim e)) = None"
    by (cases "current_kernel eng") (auto simp: resolvable_def kernel_field_def)
  from assms have a: "(case current_arch eng of None \<Rightarrow> None | Some A \<Rightarrow> arch_field A (trim e)) = None"
    by (cases "current_arch eng") (auto simp: resolvable_def arch_field_def)
  from assms have m: "(case current_machine eng of None \<Rightarrow> None | Some M \<Rightarrow> machine_field M (trim e)) = None"
    by (cases "current_machine eng") (auto simp: resolvable_def machine_field_def)
  from assms have g: "arg_field eng (trim e) = None"
    by (cases "current_kernel eng") (auto simp: resolvable_def arg_field_def)
  from assms have c: "check_field eng (trim e) = None"
    by (cases "current_arch eng") (auto simp: resolvable_def check_field_def)
  from assms have r: "trim e \<noteq> ''end_open_parens''"
    "\<not> (trim e = ''i'' \<and> 0 \<le> current_enum_index eng)"
    "\<not> (trim e = ''len_archs'' \<and> 0 < len_archs eng)"
    by (auto simp: resolvable_def)
  show ?thesis
    unfolding evaluate_expression_def Let_def
    by (simp only: v k a m g c r if_False first_some.simps option.case)
qed

lemma takeWhile_upto: "q \<notin> set e \<Longrightarrow> takeWhile (\<lambda>c. c \<noteq> q) (e @ q # suf) = e"
  by (induction e) auto

lemma dropWhile_upto: "q \<notin> set e \<Longrightarrow> dropWhile (\<lambda>c. c \<noteq> q) (e @ q # suf) = q # suf"
  by (induction e) auto

lemma var_here_match:
  "e \<noteq> [] \<Longrightarrow> CHR ''}'' \<notin> set e \<Longrightarrow> var_here (''${'' @ e @ ''}'' @ suf) = Some (e, suf)"
proof -
  assume e: "e \<noteq> []" "CHR ''}'' \<notin> set e"
  then have t: "takeWhile (\<lambda>c. c \<noteq> CHR ''}'') (e @ CHR ''}'' # suf) = e"
    by (simp add: takeWhile_upto)
  from e have d: "dropWhile (\<lambda>c. c \<noteq> CHR ''}'') (e @ CHR ''}'' # suf) = CHR ''}'' # suf"
    by (simp add: dropWhile_upto)
  show ?thesis using e by (simp add: var_here_def t d)
qed

lemma var_re_skip:
  "find_sub ''${'' pre = None \<Longrightarrow>
   var_re (pre @ CHR ''$'' # rest) =
     (case var_re (CHR ''$'' # rest) of
        None \<Rightarrow> None
      | Some (p, e, s) \<Rightarrow> Some (pre @ p, e, s))"
proof (induction pre)
  case Nil
  then show ?case by (simp split: option.splits)
next
  case (Cons c cs)
  from Cons.prems have 1: "find_sub ''${'' cs = None"
    by (auto split: option.splits if_splits)
  from Cons.prems have 2: "var_here (c # cs @ CHR ''$'' # rest) = None"
    by (cases cs) (auto simp: var_here_def split: option.splits if_splits)
  show ?case using Cons.IH [OF 1] 2 by (simp split: option.splits)
qed

lemma var_re_match:
  assumes "find_sub ''${'' pre = None" "e \<noteq> []" "CHR ''}'' \<notin> set e"
  shows "var_re (pre @ ''${'' @ e @ ''}'' @ suf) = Some (pre, e, suf)"
proof -
  have "var_re (CHR ''$'' # CHR ''{'' # e @ CHR ''}'' # suf) = Some ([], e, suf)"
    using var_here_match [OF assms(2,3), of suf] by simp
  with var_re_skip [OF assms(1), of "CHR ''{'' # e @ CHR ''}'' # suf"] show ?thesis by simp
qed

lemma vars_loop_pos:
  "0 < n \<Longrightarrow>
   vars_loop n eng processed =
     (case var_re processed of
        None \<Rightarrow> processed
      | Some (prefix, expr, suffix) \<Rightarrow>
          vars_loop (n - 1) eng (prefix @ evaluate_expression eng expr @ suffix))"
  by (cases n) (auto split: option.splits)

text \<open>
  C6. An expression that, trimmed, is none of those the engine resolves evaluates to
  the empty string. When the variable pattern finds such an expression in a line (as
  it does when no \<^verbatim>\<open>${\<close> stands before the occurrence), the substitution pass
  replaces the occurrence by nothing and goes on with the rest of the line, with the
  rounds that are left. The pass returns a string: there is no error value.
\<close>

theorem C6_unresolved_variable:
  assumes "trim e \<notin> set (resolvable eng)"
  shows "evaluate_expression eng e = [] \<and>
         (var_re line = Some (pre, e, suf) \<longrightarrow>
            substitute_vars eng line = vars_loop (length line + 99) eng (pre @ suf)) \<and>
         (find_sub ''${'' pre = None \<and> e \<noteq> [] \<and> CHR ''}'' \<notin> set e \<longrightarrow>
            substitute_vars eng (pre @ ''${'' @ e @ ''}'' @ suf) =
              vars_loop (length (pre @ ''${'' @ e @ ''}'' @ suf) + 99) eng (pre @ suf))"
proof (intro conjI impI)
  show u: "evaluate_expression eng e = []" using assms by (rule evaluate_unresolved)
  have step: "\<And>l p s. var_re l = Some (p, e, s) \<Longrightarrow>
      substitute_vars eng l = vars_loop (length l + 99) eng (p @ s)"
  proof -
    fix l p s
    assume "var_re l = Some (p, e, s)"
    moreover have "length l + 100 = Suc (length l + 99)" by simp
    ultimately show "substitute_vars eng l = vars_loop (length l + 99) eng (p @ s)"
      unfolding substitute_vars_def by (simp only: vars_loop.simps option.case prod.case u append_Nil)
  qed
  {
    assume "var_re line = Some (pre, e, suf)"
    then show "substitute_vars eng line = vars_loop (length line + 99) eng (pre @ suf)"
      by (rule step)
  }
  {
    assume "find_sub ''${'' pre = None \<and> e \<noteq> [] \<and> CHR ''}'' \<notin> set e"
    then have "var_re (pre @ ''${'' @ e @ ''}'' @ suf) = Some (pre, e, suf)"
      using var_re_match [of pre e suf] by blast
    then show "substitute_vars eng (pre @ ''${'' @ e @ ''}'' @ suf) =
              vars_loop (length (pre @ ''${'' @ e @ ''}'' @ suf) + 99) eng (pre @ suf)"
      by (rule step)
  }
qed

theorem C6_unresolved_variable_witness:
  "evaluate_expression eng_demo ''unknown.path'' = [] \<and>
   substitute_vars eng_demo ''a${unknown.path}b${kern.name}c'' = ''abvolk_32f_addc''"
proof -
  have u: "trim ''unknown.path'' \<notin> set (resolvable eng_demo)"
    by (simp add: resolvable_def eng_demo_def new_engine_def trim_def class_defs)
  have p: "find_sub ''${'' ''a'' = None \<and> ''unknown.path'' \<noteq> [] \<and> CHR ''}'' \<notin> set ''unknown.path''"
    by simp
  from C6_unresolved_variable [OF u, of _ "''a''" "''b${kern.name}c''"] p
  have "evaluate_expression eng_demo ''unknown.path'' = [] \<and>
        substitute_vars eng_demo (''a'' @ ''${'' @ ''unknown.path'' @ ''}'' @ ''b${kern.name}c'') =
        vars_loop (length (''a'' @ ''${'' @ ''unknown.path'' @ ''}'' @ ''b${kern.name}c'') + 99)
          eng_demo (''a'' @ ''b${kern.name}c'')"
    by blast
  moreover have "evaluate_expression eng_demo ''kern.name'' = ''volk_32f_add''"
    by (simp add: evaluate_expression_def eng_demo_def new_engine_def trim_def class_defs
        kernel_field_def kern_demo_def)
  ultimately show ?thesis
    by (simp add: vars_loop_pos regex_defs)
qed

subsection \<open>Loops over nothing\<close>

lemma execute_loop_inert:
  "inert_collection eng (loop_collection state) \<Longrightarrow>
   execute_loop cat rb state eng = Inr ([], eng)"
  by (auto simp: inert_collection_def execute_loop_def)

lemma render_lines_append:
  "render_lines step (xs @ ys) result rs =
     (case render_lines step xs result rs of
        Inl err \<Rightarrow> Inl err
      | Inr (r, rs') \<Rightarrow> render_lines step ys r rs')"
  by (induction xs arbitrary: result rs) (auto split: sum.splits)

lemma collect_line:
  assumes "loop_stack rs = [st]" "loop_collecting st" "\<not> in_multiline_block rs"
    "opens_block l = None" "\<not> (endfor_re l \<and> loop_depth st = 1)"
  shows "\<exists>st'. process_line cat rb args rs l = Inr ([], rs\<lparr>loop_stack := [st']\<rparr>) \<and>
           loop_collecting st' \<and> loop_collection st' = loop_collection st \<and>
           loop_depth st' = depth_after (loop_depth st) l"
  using assms
  by (auto simp: process_line_def process_loop_line_def Let_def depth_after_def)

lemma collect_body:
  assumes "loop_stack rs = [st]" "loop_collecting st" "\<not> in_multiline_block rs"
    "\<forall>l \<in> set body. opens_block l = None" "balanced (loop_depth st) body"
  shows "\<exists>st'. render_lines (process_line cat rb args) body result rs =
                 Inr (result, rs\<lparr>loop_stack := [st']\<rparr>) \<and>
           loop_collecting st' \<and> loop_collection st' = loop_collection st \<and> loop_depth st' = 1"
  using assms
proof (induction body arbitrary: rs st)
  case Nil
  then have "rs\<lparr>loop_stack := [st]\<rparr> = rs" by simp
  with Nil show ?case by (intro exI [of _ st]) simp
next
  case (Cons l ls)
  from Cons.prems(5) have ne: "\<not> (endfor_re l \<and> loop_depth st = 1)" by auto
  from Cons.prems(4) have ob: "opens_block l = None" by simp
  from collect_line [OF Cons.prems(1,2,3) ob ne, of cat rb args]
  obtain st1 where st1: "process_line cat rb args rs l = Inr ([], rs\<lparr>loop_stack := [st1]\<rparr>)"
      "loop_collecting st1" "loop_collection st1 = loop_collection st"
      "loop_depth st1 = depth_after (loop_depth st) l"
    by blast
  let ?rs1 = "rs\<lparr>loop_stack := [st1]\<rparr>"
  have b: "balanced (loop_depth st1) ls"
    using Cons.prems(5) st1(4) by simp
  have "\<exists>st'. render_lines (process_line cat rb args) ls result ?rs1 =
                 Inr (result, ?rs1\<lparr>loop_stack := [st']\<rparr>) \<and>
           loop_collecting st' \<and> loop_collection st' = loop_collection st1 \<and> loop_depth st' = 1"
    using Cons.prems(3,4) st1(2) b by (intro Cons.IH) simp_all
  then obtain st' where st': "render_lines (process_line cat rb args) ls result ?rs1 =
                 Inr (result, ?rs1\<lparr>loop_stack := [st']\<rparr>)"
      "loop_collecting st'" "loop_collection st' = loop_collection st1" "loop_depth st' = 1"
    by blast
  show ?case
    using st1 st' by (intro exI [of _ st']) simp
qed

text \<open>
  C10. Let no loop be open and no multi-line block be collected, let a line open a
  loop over such a collection, and let the loop be closed by an \<^verbatim>\<open>endfor\<close> line
  after a balanced body, no line of which starts a multi-line block (such a line is
  not buffered). Then rendering these lines and any lines after them is rendering
  the lines after them: the loop adds nothing to the output and leaves the state as
  it was, so the body is neither executed nor echoed.
\<close>

theorem C10_inert_loop:
  assumes lp: "open_loop for_line = Some state"
    and ic: "inert_collection (engine rs) (loop_collection state)"
    and tp: "loop_stack rs = []" "\<not> in_multiline_block rs"
    and pl: "\<forall>l \<in> set (for_line # body @ [endfor_line]). opens_block l = None"
    and bl: "balanced 1 body" "endfor_re endfor_line"
  shows "render_lines (process_line cat rb args) (for_line # body @ [endfor_line] @ rest) result rs =
         render_lines (process_line cat rb args) rest result rs"
proof -
  let ?step = "process_line cat rb args"
  let ?rs1 = "rs\<lparr>loop_stack := [state]\<rparr>"
  from lp have st: "loop_collecting state" "loop_depth state = 1"
    by (auto simp: open_loop_def split: option.splits)
  have 1: "?step rs for_line = Inr ([], ?rs1)"
    using lp tp pl by (simp add: process_line_def)
  have "\<exists>st'. render_lines ?step body result ?rs1 = Inr (result, ?rs1\<lparr>loop_stack := [st']\<rparr>) \<and>
           loop_collecting st' \<and> loop_collection st' = loop_collection state \<and> loop_depth st' = 1"
    using tp pl bl st by (intro collect_body) simp_all
  then obtain st' where 2: "render_lines ?step body result ?rs1 = Inr (result, rs\<lparr>loop_stack := [st']\<rparr>)"
      and st': "loop_collecting st'" "loop_collection st' = loop_collection state" "loop_depth st' = 1"
    by auto
  have same: "rs\<lparr>loop_stack := []\<rparr> = rs" using tp by simp
  have 3: "?step (rs\<lparr>loop_stack := [st']\<rparr>) endfor_line = Inr ([], rs)"
    using tp pl bl st' ic same
    by (simp add: process_line_def process_loop_line_def execute_loop_inert)
  show ?thesis
    by (simp add: 1 render_lines_append 2 3)
qed

theorem C10_inert_loop_witness:
  "render cat_demo 0 new_engine tmpl_inert [] = Inr (banner @ ''tail'' @ [CHR 0x0A], new_engine)"
proof -
  have lp: "open_loop ''%for x in nothing:'' =
      Some \<lparr> loop_var_name = ''x'', loop_index_var_name = [], loop_collection = ''nothing'',
             loop_body = [], loop_collecting = True, loop_is_enumerate = False, loop_depth = 1 \<rparr>"
    by (simp add: regex_defs class_defs)
  have ic: "inert_collection (engine (start_state new_engine))
      (loop_collection \<lparr> loop_var_name = ''x'', loop_index_var_name = [],
         loop_collection = ''nothing'', loop_body = [], loop_collecting = True,
         loop_is_enumerate = False, loop_depth = 1 \<rparr>)"
    by (simp add: inert_collection_def)
  have tp: "loop_stack (start_state new_engine) = []" "\<not> in_multiline_block (start_state new_engine)"
    by (simp_all add: start_state_def)
  have pl: "\<forall>l \<in> set (''%for x in nothing:'' #
      [''echo ${x}'', ''%for k in kernels:'', ''inner'', ''%endfor''] @ [''%endfor'']).
      opens_block l = None"
    by (simp add: opens_block_def)
  have bl: "balanced 1 [''echo ${x}'', ''%for k in kernels:'', ''inner'', ''%endfor'']"
    "endfor_re ''%endfor''"
    by (simp_all add: depth_after_def regex_defs class_defs)
  have ls: "getlines tmpl_inert = ''%for x in nothing:'' #
      [''echo ${x}'', ''%for k in kernels:'', ''inner'', ''%endfor''] @ [''%endfor''] @ [''tail'']"
    by (simp add: tmpl_inert_def lines_inert_def getlines_def)
  have tail: "\<And>rb. render_lines (process_line cat_demo rb []) [''tail''] banner
        (start_state new_engine) =
      Inr (banner @ ''tail'' @ [CHR 0x0A], start_state new_engine)"
    by (simp add: line_defs regex_defs class_defs code_blocks_loop_none vars_loop_none)
  show ?thesis
    by (subst render.simps)
       (simp only: ls C10_inert_loop [OF lp ic tp pl bl] tail sum.case prod.case,
        simp add: start_state_def)
qed

subsection \<open>Rendering again\<close>

text \<open>
  What a render leaves in its engine. The loops put back the fields they set, so a
  template without code blocks leaves the engine as it found it, up to the list
  \<^verbatim>\<open>current_impls\<close>, which a fresh engine has empty.
\<close>

lemma find_sub_open: "find_sub ''<%'' s = None \<longleftrightarrow> \<not> has_open s"
  by (induction s rule: has_open.induct) (auto split: option.splits if_splits)

lemma has_open_append:
  "has_open (xs @ ys) \<longleftrightarrow>
     has_open xs \<or> has_open ys \<or> (xs \<noteq> [] \<and> ys \<noteq> [] \<and> last xs = CHR ''<'' \<and> hd ys = CHR ''%'')"
proof (induction xs rule: has_open.induct)
  case 1
  then show ?case by simp
next
  case (2 c)
  then show ?case by (cases ys) auto
next
  case (3 c d ds)
  then show ?case by auto
qed

lemma code_block_re_none: "\<not> has_open s \<Longrightarrow> code_block_re s = None"
  by (induction s rule: has_open.induct) (auto simp: code_block_here_def split: option.splits)

lemma opens_block_none: "\<not> has_open s \<Longrightarrow> opens_block s = None"
  using find_sub_open [of s] by (simp add: opens_block_def)

lemma getlines_loop_open:
  "\<not> has_open (cur @ s) \<Longrightarrow> \<forall>l \<in> set (getlines_loop s cur). \<not> has_open l"
proof (induction s arbitrary: cur)
  case Nil
  then show ?case by simp
next
  case (Cons c cs)
  show ?case
  proof (cases "c = CHR 0x0A")
    case True
    from Cons.prems have "\<not> has_open cur" "\<not> has_open cs"
      using has_open_append [of cur "c # cs"] has_open_append [of "[c]" cs] by auto
    with True Cons.IH [of "[]"] show ?thesis by simp
  next
    case False
    from Cons.prems have "\<not> has_open ((cur @ [c]) @ cs)" by simp
    with False Cons.IH [of "cur @ [c]"] show ?thesis by simp
  qed
qed

lemma getlines_open: "\<not> has_open tmpl \<Longrightarrow> \<forall>l \<in> set (getlines tmpl). \<not> has_open l"
  unfolding getlines_def using getlines_loop_open [of "[]" tmpl] by simp

lemma body_ok_extend: "body_ok b \<Longrightarrow> \<not> has_open l \<Longrightarrow> body_ok (b @ l @ [CHR 0x0A])"
proof -
  assume b: "body_ok b" and l: "\<not> has_open l"
  have 1: "\<not> has_open (l @ [CHR 0x0A])"
    using l has_open_append [of l "[CHR 0x0A]"] by auto
  have "\<not> has_open (b @ (l @ [CHR 0x0A]))"
    using b 1 has_open_append [of b "l @ [CHR 0x0A]"] by (auto simp: body_ok_def)
  then show ?thesis by (simp add: body_ok_def)
qed

lemma kept_refl: "kept d x x"
  by (simp add: kept_def)

lemma kept_trans: "kept d x y \<Longrightarrow> kept d y z \<Longrightarrow> kept d x z"
  by (auto simp: kept_def)

lemma kept_default: "kept d d y \<Longrightarrow> y = d"
  by (auto simp: kept_def)

lemma settled_refl: "settled eng eng"
  by (simp add: settled_def kept_refl)

lemma settled_trans:
  assumes ab: "settled a b" and bc: "settled b c"
  shows "settled a c"
proof -
  have k1: "kept None (current_kernel a) (current_kernel c)"
    using ab bc unfolding settled_def by (blast intro: kept_trans)
  have k2: "kept None (current_arch a) (current_arch c)"
    using ab bc unfolding settled_def by (blast intro: kept_trans)
  have k3: "kept None (current_machine a) (current_machine c)"
    using ab bc unfolding settled_def by (blast intro: kept_trans)
  have k4: "kept (- 1) (current_arg_index a) (current_arg_index c)"
    using ab bc unfolding settled_def by (blast intro: kept_trans)
  have k5: "kept (- 1) (current_check_index a) (current_check_index c)"
    using ab bc unfolding settled_def by (blast intro: kept_trans)
  have k6: "kept (- 1) (current_enum_index a) (current_enum_index c)"
    using ab bc unfolding settled_def by (blast intro: kept_trans)
  have k7: "kept [] (current_impls a) (current_impls c)"
    using ab bc unfolding settled_def by (blast intro: kept_trans)
  have e: "vars c = vars a" "current_impl c = current_impl a"
    "num_open_parens c = num_open_parens a" "end_open_parens c = end_open_parens a"
    "len_archs c = len_archs a"
    using ab bc by (simp_all add: settled_def)
  show ?thesis
    unfolding settled_def using e k1 k2 k3 k4 k5 k6 k7 by blast
qed

lemma copy_back_settled:
  "settled (sub_engine e) sub \<Longrightarrow> copy_back e sub = e\<lparr>current_impls := []\<rparr>"
proof -
  assume s: "settled (sub_engine e) sub"
  then have "kept [] [] (current_impls sub)"
    by (simp add: settled_def sub_engine_def)
  then have "current_impls sub = []" by (rule kept_default)
  moreover from s have "num_open_parens sub = num_open_parens e"
    "end_open_parens sub = end_open_parens e"
    by (simp_all add: settled_def sub_engine_def)
  ultimately show ?thesis by (simp add: copy_back_def)
qed

lemma loop_over_gentle:
  assumes rb: "\<And>e out e'. rb e = Inr (out, e') \<Longrightarrow> e' = e \<or> e' = e\<lparr>current_impls := []\<rparr>"
    and sel: "\<And>i x e. reset (select i x e) = reset e"
    and com: "\<And>e. reset (e\<lparr>current_impls := []\<rparr>) = (reset e)\<lparr>current_impls := []\<rparr>"
    and run: "loop_over rb select i xs out0 eng = Inr (out, eng')"
  shows "reset eng' = reset eng \<or> reset eng' = (reset eng)\<lparr>current_impls := []\<rparr>"
  using run
proof (induction xs arbitrary: i out0 eng)
  case Nil
  then show ?case by simp
next
  case (Cons x xs)
  from Cons.prems obtain o1 e1 where s1: "rb (select i x eng) = Inr (o1, e1)"
    and r: "loop_over rb select (Suc i) xs (out0 @ o1) e1 = Inr (out, eng')"
    by (auto split: sum.splits)
  from rb [OF s1] have "reset e1 = reset eng \<or> reset e1 = (reset eng)\<lparr>current_impls := []\<rparr>"
    by (auto simp: sel com)
  moreover from Cons.IH [OF r]
  have "reset eng' = reset e1 \<or> reset eng' = (reset e1)\<lparr>current_impls := []\<rparr>" .
  ultimately show ?case by auto
qed

lemma after_loop_settled:
  assumes rb: "\<And>e out e'. rb e = Inr (out, e') \<Longrightarrow> e' = e \<or> e' = e\<lparr>current_impls := []\<rparr>"
    and sel: "\<And>i x e. reset (select i x e) = reset e"
    and com: "\<And>e. reset (e\<lparr>current_impls := []\<rparr>) = (reset e)\<lparr>current_impls := []\<rparr>"
    and s1: "settled eng (reset eng)"
    and s2: "settled eng ((reset eng)\<lparr>current_impls := []\<rparr>)"
    and run: "after_loop reset (loop_over rb select i xs out0 eng) = Inr (out, eng')"
  shows "settled eng eng'"
proof -
  from run obtain e1 where l: "loop_over rb select i xs out0 eng = Inr (out, e1)"
    and e: "eng' = reset e1"
    by (auto simp: after_loop_def split: sum.splits)
  from loop_over_gentle [of rb reset select, OF rb sel com l]
  have "reset e1 = reset eng \<or> reset e1 = (reset eng)\<lparr>current_impls := []\<rparr>" .
  with e s1 s2 show ?thesis by auto
qed

lemma execute_loop_settled:
  assumes g: "gentle rb" and b: "\<not> has_open (loop_body state)"
    and run: "execute_loop cat rb state eng = Inr (out, eng')"
  shows "settled eng eng'"
proof -
  let ?rb = "\<lambda>e. rb e (loop_body state)"
  have rb: "\<And>e out e'. ?rb e = Inr (out, e') \<Longrightarrow> e' = e \<or> e' = e\<lparr>current_impls := []\<rparr>"
    using g b unfolding gentle_def by blast
  let ?c1 = "loop_collection state = ''kernels''"
  let ?c2 = "loop_collection state = ''archs''"
  let ?c3 = "loop_collection state = ''machines''"
  let ?c4 = "loop_collection state = ''this_machine.archs'' \<and> current_machine eng \<noteq> None"
  let ?c5 = "loop_collection state = ''kern.args'' \<and> current_kernel eng \<noteq> None"
  let ?c6 = "loop_collection state = ''arch.checks'' \<and> current_arch eng \<noteq> None"
  consider (kernels) ?c1
    | (archs) "\<not> ?c1" ?c2
    | (machines) "\<not> ?c1" "\<not> ?c2" ?c3
    | (marchs) "\<not> ?c1" "\<not> ?c2" "\<not> ?c3" ?c4
    | (args) "\<not> ?c1" "\<not> ?c2" "\<not> ?c3" "\<not> ?c4" ?c5
    | (checks) "\<not> ?c1" "\<not> ?c2" "\<not> ?c3" "\<not> ?c4" "\<not> ?c5" ?c6
    | (none) "\<not> ?c1" "\<not> ?c2" "\<not> ?c3" "\<not> ?c4" "\<not> ?c5" "\<not> ?c6"
    by blast
  then show ?thesis
  proof cases
    case kernels
    with run have r: "after_loop (\<lambda>e. e\<lparr>current_kernel := None, current_enum_index := - 1\<rparr>)
          (loop_over ?rb
             (\<lambda>i k e. if loop_is_enumerate state
                        then e\<lparr>current_kernel := Some k, current_enum_index := int i\<rparr>
                        else e\<lparr>current_kernel := Some k\<rparr>)
             0 (g_kernels cat) [] eng) = Inr (out, eng')"
      by (simp add: execute_loop_def Let_def)
    show ?thesis
      by (rule after_loop_settled [OF rb _ _ _ _ r]) (simp_all add: settled_def kept_def)
  next
    case archs
    with run have r: "after_loop (\<lambda>e. e\<lparr>current_arch := None, current_enum_index := - 1\<rparr>)
          (loop_over ?rb
             (\<lambda>i a e. if loop_is_enumerate state
                        then e\<lparr>current_arch := Some a, current_enum_index := int i\<rparr>
                        else e\<lparr>current_arch := Some a\<rparr>)
             0 (g_archs cat) [] eng) = Inr (out, eng')"
      by (simp add: execute_loop_def Let_def)
    show ?thesis
      by (rule after_loop_settled [OF rb _ _ _ _ r]) (simp_all add: settled_def kept_def)
  next
    case machines
    with run have r: "after_loop (\<lambda>e. e\<lparr>current_machine := None\<rparr>)
          (loop_over ?rb (\<lambda>i m e. e\<lparr>current_machine := Some m\<rparr>) 0 (g_machines cat) [] eng) =
        Inr (out, eng')"
      by (simp add: execute_loop_def Let_def)
    show ?thesis
      by (rule after_loop_settled [OF rb _ _ _ _ r]) (simp_all add: settled_def kept_def)
  next
    case marchs
    with run have r: "after_loop (\<lambda>e. e\<lparr>current_arch := None\<rparr>)
          (loop_over ?rb (\<lambda>i a e. e\<lparr>current_arch := Some a\<rparr>) 0
             (machine_archs (the (current_machine eng))) [] eng) = Inr (out, eng')"
      by (simp add: execute_loop_def Let_def)
    show ?thesis
      by (rule after_loop_settled [OF rb _ _ _ _ r]) (simp_all add: settled_def kept_def)
  next
    case args
    with run have r: "after_loop (\<lambda>e. e\<lparr>current_arg_index := - 1\<rparr>)
          (loop_over ?rb (\<lambda>i a e. e\<lparr>current_arg_index := int i\<rparr>) 0
             (kern_args (the (current_kernel eng))) [] eng) = Inr (out, eng')"
      by (simp add: execute_loop_def Let_def)
    show ?thesis
      by (rule after_loop_settled [OF rb _ _ _ _ r]) (simp_all add: settled_def kept_def)
  next
    case checks
    with run have r: "after_loop (\<lambda>e. e\<lparr>current_check_index := - 1\<rparr>)
          (loop_over ?rb (\<lambda>i c e. e\<lparr>current_check_index := int i\<rparr>) 0
             (arch_checks (the (current_arch eng))) [] eng) = Inr (out, eng')"
      by (simp add: execute_loop_def Let_def)
    show ?thesis
      by (rule after_loop_settled [OF rb _ _ _ _ r]) (simp_all add: settled_def kept_def)
  next
    case none
    then have "execute_loop cat rb state eng = Inr ([], eng)"
      by (auto simp: execute_loop_def Let_def)
    with run show ?thesis by (simp add: settled_refl)
  qed
qed

lemma substitute_line_engine:
  "\<not> has_open line \<Longrightarrow> snd (substitute_line cat args eng line) = eng"
  by (simp add: substitute_line_def code_blocks_loop_none code_block_re_none Let_def)

lemma process_conditional_frame:
  assumes "\<not> has_open line" "process_conditional cat args rs line = Inr (out, rs')"
  shows "engine rs' = engine rs \<and> loop_stack rs' = loop_stack rs \<and>
         in_multiline_block rs' = in_multiline_block rs"
proof -
  obtain o1 e1 where sl: "substitute_line cat args (engine rs) line = (o1, e1)"
    by (cases "substitute_line cat args (engine rs) line") auto
  with substitute_line_engine [OF assms(1), of cat args "engine rs"] have e1: "e1 = engine rs"
    by simp
  show ?thesis
    using assms(2) sl e1 unfolding process_conditional_def
    by (auto split: option.splits sum.splits list.splits if_splits)
qed

lemma open_loop_body: "open_loop line = Some st \<Longrightarrow> loop_body st = []"
  by (auto simp: open_loop_def split: option.splits)

lemma process_loop_line_calm:
  assumes g: "gentle rb" and c: "calm rs" and l: "\<not> has_open line"
    and run: "process_loop_line cat rb args rs line = Inr (out, rs')"
  shows "calm rs' \<and> settled (engine rs) (engine rs')"
proof (cases "loop_stack rs")
  case Nil
  with run have "process_conditional cat args rs line = Inr (out, rs')"
    by (simp add: process_loop_line_def)
  from process_conditional_frame [OF l this] c show ?thesis
    by (simp add: calm_def settled_refl)
next
  case (Cons state rest)
  let ?state1 = "if endfor_re line then state\<lparr>loop_depth := loop_depth state - 1\<rparr> else state"
  from c Cons have b: "body_ok (loop_body state)" and br: "\<forall>st \<in> set rest. body_ok (loop_body st)"
    and nm: "\<not> in_multiline_block rs"
    by (simp_all add: calm_def)
  have b1: "loop_body ?state1 = loop_body state" by simp
  consider (close) "endfor_re line" "loop_depth ?state1 = 0"
    | (collect) "\<not> (endfor_re line \<and> loop_depth ?state1 = 0)" "loop_collecting ?state1"
    | (other) "\<not> (endfor_re line \<and> loop_depth ?state1 = 0)" "\<not> loop_collecting ?state1"
    by blast
  then show ?thesis
  proof cases
    case close
    with run Cons obtain eng' where x: "execute_loop cat rb ?state1 (engine rs) = Inr (out, eng')"
      and r: "rs' = rs\<lparr>engine := eng', loop_stack := rest\<rparr>"
      by (auto simp: process_loop_line_def Let_def split: sum.splits)
    from b have "\<not> has_open (loop_body ?state1)" by (simp add: body_ok_def)
    from execute_loop_settled [OF g this x] have "settled (engine rs) eng'" .
    with r br nm show ?thesis by (simp add: calm_def)
  next
    case collect
    let ?state2 = "if is_for line then ?state1\<lparr>loop_depth := loop_depth ?state1 + 1\<rparr> else ?state1"
    let ?state3 = "if \<not> endfor_re line \<or> 0 < loop_depth ?state2
                   then ?state2\<lparr>loop_body := loop_body ?state2 @ line @ [CHR 0x0A]\<rparr> else ?state2"
    from run Cons collect have r: "rs' = rs\<lparr>loop_stack := ?state3 # rest\<rparr>"
      by (auto simp: process_loop_line_def Let_def)
    have "body_ok (loop_body ?state3)"
      using b body_ok_extend [OF b l] by simp
    with r br nm show ?thesis by (simp add: calm_def settled_refl)
  next
    case other
    with run Cons have "process_conditional cat args (rs\<lparr>loop_stack := ?state1 # rest\<rparr>) line =
        Inr (out, rs')"
      by (auto simp: process_loop_line_def Let_def)
    from process_conditional_frame [OF l this] b br nm show ?thesis
      by (simp add: calm_def settled_refl)
  qed
qed

lemma process_line_calm:
  assumes g: "gentle rb" and c: "calm rs" and l: "\<not> has_open line"
    and run: "process_line cat rb args rs line = Inr (out, rs')"
  shows "calm rs' \<and> settled (engine rs) (engine rs')"
proof -
  from c have nm: "\<not> in_multiline_block rs" by (simp add: calm_def)
  have ob: "opens_block line = None" using l by (rule opens_block_none)
  let ?o = "if loop_stack rs = [] \<or> \<not> loop_collecting (hd (loop_stack rs))
            then open_loop line else None"
  show ?thesis
  proof (cases ?o)
    case None
    with run nm ob have "process_loop_line cat rb args rs line = Inr (out, rs')"
      by (simp add: process_line_def)
    from process_loop_line_calm [OF g c l this] show ?thesis .
  next
    case (Some state)
    with run nm ob have r: "rs' = rs\<lparr>loop_stack := state # loop_stack rs\<rparr>"
      by (simp add: process_line_def)
    from Some have "open_loop line = Some state" by (simp split: if_splits)
    then have "loop_body state = []" by (rule open_loop_body)
    with r c show ?thesis by (simp add: calm_def body_ok_def settled_refl)
  qed
qed

lemma render_lines_calm:
  assumes g: "gentle rb"
  shows "calm rs \<Longrightarrow> \<forall>l \<in> set ls. \<not> has_open l \<Longrightarrow>
         render_lines (process_line cat rb args) ls result rs = Inr (out, rs') \<Longrightarrow>
         settled (engine rs) (engine rs')"
proof (induction ls arbitrary: result rs)
  case Nil
  then show ?case by (simp add: settled_refl)
next
  case (Cons l ls)
  from Cons.prems(3) obtain o1 rs1 where s1: "process_line cat rb args rs l = Inr (o1, rs1)"
    and r: "render_lines (process_line cat rb args) ls (result @ o1) rs1 = Inr (out, rs')"
    by (auto split: sum.splits)
  from Cons.prems(2) have l: "\<not> has_open l" and ls: "\<forall>l \<in> set ls. \<not> has_open l" by simp_all
  from process_line_calm [OF g Cons.prems(1) l s1]
  have c1: "calm rs1" and t1: "settled (engine rs) (engine rs1)" by simp_all
  from Cons.IH [OF c1 ls r] have "settled (engine rs1) (engine rs')" .
  with t1 show ?case by (rule settled_trans)
qed

lemma render_settled:
  "\<not> has_open tmpl \<Longrightarrow> render cat d eng tmpl args = Inr (out, eng') \<Longrightarrow> settled eng eng'"
proof (induction cat d eng tmpl args arbitrary: out eng' rule: render.induct)
  case (1 cat render_depth eng tmpl extra_args)
  let ?rb = "\<lambda>e block.
      if max_render_depth \<le> render_depth then Inr ([], e)
      else (case render cat (Suc render_depth) (sub_engine e) block extra_args of
              Inl err \<Rightarrow> Inl err
            | Inr (result, sub) \<Rightarrow> Inr (strip_banner result, copy_back e sub))"
  have g: "gentle ?rb"
    unfolding gentle_def
  proof (intro allI impI)
    fix e block out1 e1
    assume nb: "\<not> has_open block" and r: "?rb e block = Inr (out1, e1)"
    show "e1 = e \<or> e1 = e\<lparr>current_impls := []\<rparr>"
    proof (cases "max_render_depth \<le> render_depth")
      case True
      with r show ?thesis by simp
    next
      case False
      with r obtain result sub where
        s: "render cat (Suc render_depth) (sub_engine e) block extra_args = Inr (result, sub)"
        and e1: "e1 = copy_back e sub"
        by (auto split: sum.splits)
      from "1.IH" [OF False nb s] have "settled (sub_engine e) sub" .
      with e1 show ?thesis by (simp add: copy_back_settled)
    qed
  qed
  from "1.prems"(2) obtain rs' where
    r: "render_lines (process_line cat ?rb extra_args) (getlines tmpl) banner (start_state eng) =
          Inr (out, rs')"
    and e: "eng' = engine rs'"
    by (subst (asm) render.simps) (auto split: sum.splits)
  have c: "calm (start_state eng)" by (simp add: calm_def start_state_def)
  from render_lines_calm [OF g c getlines_open [OF "1.prems"(1)] r] e
  show ?case by (simp add: start_state_def)
qed

lemma settled_fresh:
  "settled (new_engine\<lparr>vars := vs\<rparr>) eng' \<Longrightarrow> eng' = new_engine\<lparr>vars := vs\<rparr>"
  by (cases eng') (auto simp: settled_def kept_def new_engine_def)

text \<open>
  A freshly constructed engine, with any caller-set variables, is as it was after it
  has rendered a template without \<^verbatim>\<open><%\<close>.
\<close>

lemma render_plain_keeps_engine:
  assumes "find_sub ''<%'' tmpl = None"
    and "eng = new_engine\<lparr>vars := vs\<rparr>"
    and "render cat d eng tmpl args = Inr (out, eng')"
  shows "eng' = eng"
proof -
  from assms(1) have "\<not> has_open tmpl" by (simp add: find_sub_open)
  from render_settled [OF this assms(3)] assms(2) show "eng' = eng"
    by (simp add: settled_fresh)
qed

lemma code_blocks_loop_pos:
  "0 < n \<Longrightarrow>
   code_blocks_loop cat extra_args n eng processed =
     (case code_block_re processed of
        None \<Rightarrow> (processed, eng)
      | Some (prefix, code, suffix) \<Rightarrow>
          (case execute_code_block cat eng code extra_args of
             (replacement, eng') \<Rightarrow>
               code_blocks_loop cat extra_args (n - 1) eng' (prefix @ replacement @ suffix)))"
  by (cases n) (auto split: option.splits)

text \<open>
  A code block writes \<^verbatim>\<open>num_open_parens_\<close> and \<^verbatim>\<open>end_open_parens_\<close>, and
  these stay in the engine object after the render. The engine of the first line below
  is the one that \<^verbatim>\<open>main\<close> constructs; the engine of the second line is what the
  first render leaves, which no caller of \<^verbatim>\<open>render\<close> passes to a further render:
  \<^verbatim>\<open>main\<close> and \<^verbatim>\<open>render_block\<close> construct the engine of each render.
\<close>

lemma render_parens:
  "render cat_demo 0 new_engine tmpl_parens [] = Inr (banner @ '')'' @ [CHR 0x0A], eng_once) \<and>
   render cat_demo 0 eng_once tmpl_parens [] = Inr (banner @ ''))'' @ [CHR 0x0A], eng_twice)"
proof -
  have 1: "render cat_demo 0 new_engine tmpl_parens [] = Inr (banner @ '')'' @ [CHR 0x0A], eng_once)"
    by (subst render.simps)
       (simp add: tmpl_parens_def getlines_def line_defs regex_defs class_defs
          code_blocks_loop_pos vars_loop_pos execute_code_block_def evaluate_expression_def
          new_engine_def eng_once_def)
  have 2: "render cat_demo 0 eng_once tmpl_parens [] = Inr (banner @ ''))'' @ [CHR 0x0A], eng_twice)"
    by (subst render.simps)
       (simp add: tmpl_parens_def getlines_def line_defs regex_defs class_defs
          code_blocks_loop_pos vars_loop_pos execute_code_block_def evaluate_expression_def
          new_engine_def eng_once_def eng_twice_def numeral_2_eq_2)
  from 1 2 show ?thesis ..
qed



end
